theory Spec2Isabelle
  imports Main "HOL-Library.Monad_Syntax"
begin

section \<open>The object store\<close>

text \<open>
  The service of \<^verbatim>\<open>environments.service.ts\<close> works on JavaScript objects that are
  shared by reference: an operation receives an environment object and pushes onto its
  \<^verbatim>\<open>routes\<close> array in place, \<^verbatim>\<open>Object.assign\<close> copies references, and
  \<^verbatim>\<open>cloneDeep\<close> is called exactly where sharing has to be cut. The model therefore
  keeps every object and every array in a store. An address is an index into the list of
  cells; \<^verbatim>\<open>{}\<close>, \<^verbatim>\<open>[]\<close> and \<^verbatim>\<open>new Date()\<close> append a cell, so a new address is never
  one that was valid before.
\<close>

type_synonym addr = nat

text \<open>
  A property that holds \<^verbatim>\<open>null\<close> or an object. \<open>Absent\<close> is a property that
  \<^verbatim>\<open>delete\<close> removed (reading it gives \<^verbatim>\<open>undefined\<close>).
\<close>

datatype slot = Absent | Null | Ref addr

record customHeader =
  h_uuid :: string
  h_key :: string
  h_value :: string

text \<open>
  \<^verbatim>\<open>RouteType\<close> and \<^verbatim>\<open>EnvironmentType\<close> are declared outside the service; their
  fields are those of \<^verbatim>\<open>routeSchema\<close> and \<^verbatim>\<open>environmentSchema\<close>. The fields
  carry the prefix of their record (\<open>r_\<close>, \<open>e_\<close>, \<open>h_\<close>), since the three types share
  \<^verbatim>\<open>uuid\<close>, \<^verbatim>\<open>latency\<close> and \<^verbatim>\<open>duplicates\<close>. Numbers are integers. The boolean
  properties \<^verbatim>\<open>running\<close> and \<^verbatim>\<open>needRestart\<close> are \<open>None\<close> once deleted.
\<close>

record route =
  r_uuid :: string
  r_method :: string
  r_endpoint :: string
  r_body :: string
  r_latency :: int
  r_statusCode :: string
  r_customHeaders :: addr
  r_file :: slot
  r_duplicates :: addr

record environment =
  e_uuid :: string
  e_running :: "bool option"
  e_instance :: slot
  e_name :: string
  e_endpointPrefix :: string
  e_latency :: int
  e_port :: int
  e_routes :: addr
  e_startedAt :: slot
  e_modifiedAt :: slot
  e_duplicates :: addr
  e_needRestart :: "bool option"
  e_proxyMode :: bool
  e_proxyHost :: string
  e_https :: bool
  e_cors :: bool

text \<open>
  The imported document (\<^verbatim>\<open>ExportType\<close>): the payload and the checksum stored with
  it. The format and version metadata play no part in the service.
\<close>

record exportDoc =
  x_data :: addr
  x_checksum :: string

text \<open>
  The cells of the store. \<open>Refs\<close> is an array of objects (\<^verbatim>\<open>routes\<close>,
  \<^verbatim>\<open>customHeaders\<close>, the collection itself), \<open>Nums\<close> an array of indices
  (\<^verbatim>\<open>duplicates\<close>). The \<^verbatim>\<open>file\<close> of a route is typed \<^verbatim>\<open>any\<close>: \<^verbatim>\<open>null\<close> or a
  plain object of string properties. A running server instance is opaque. \<open>Stub u d\<close>
  is the object \<^verbatim>\<open>{ uuid: u, duplicates: d }\<close> that \<^verbatim>\<open>duplicateRoute\<close> builds when
  its index selects no route.
\<close>

datatype cell =
    Env environment
  | Route route
  | Header customHeader
  | Refs "addr list"
  | Nums "nat list"
  | Date int
  | File "(string \<times> string) list"
  | Instance
  | Export exportDoc
  | Stub string addr

type_synonym heap = "cell list"

definition lookup :: "heap \<Rightarrow> addr \<Rightarrow> cell option" where
  "lookup h a = (if a < length h then Some (h ! a) else None)"

definition alloc :: "heap \<Rightarrow> cell \<Rightarrow> addr \<times> heap" where
  "alloc h c = (length h, h @ [c])"

text \<open>
  Typed reads. \<open>None\<close> stands for the \<^verbatim>\<open>TypeError\<close> of a property read on
  \<^verbatim>\<open>undefined\<close>, and for a value that is not of the declared TypeScript type.
\<close>

definition get_env :: "heap \<Rightarrow> addr \<Rightarrow> environment option" where
  "get_env h a = (case lookup h a of Some (Env e) \<Rightarrow> Some e | _ \<Rightarrow> None)"

definition get_route :: "heap \<Rightarrow> addr \<Rightarrow> route option" where
  "get_route h a = (case lookup h a of Some (Route r) \<Rightarrow> Some r | _ \<Rightarrow> None)"

definition get_header :: "heap \<Rightarrow> addr \<Rightarrow> customHeader option" where
  "get_header h a = (case lookup h a of Some (Header x) \<Rightarrow> Some x | _ \<Rightarrow> None)"

definition get_refs :: "heap \<Rightarrow> addr \<Rightarrow> addr list option" where
  "get_refs h a = (case lookup h a of Some (Refs xs) \<Rightarrow> Some xs | _ \<Rightarrow> None)"

definition get_nums :: "heap \<Rightarrow> addr \<Rightarrow> nat list option" where
  "get_nums h a = (case lookup h a of Some (Nums xs) \<Rightarrow> Some xs | _ \<Rightarrow> None)"

definition get_export :: "heap \<Rightarrow> addr \<Rightarrow> exportDoc option" where
  "get_export h a = (case lookup h a of Some (Export x) \<Rightarrow> Some x | _ \<Rightarrow> None)"

section \<open>Duplicate detection\<close>

text \<open>
  \<^verbatim>\<open>checkRoutesDuplicates\<close>, lines 221-243. The inner \<^verbatim>\<open>filter\<close> walks
  \<^verbatim>\<open>environment.routes\<close> with the index \<open>j\<close> of the other route, skips the index
  \<open>i\<close> of the first route, and pushes \<open>j\<close> when endpoint and method are both
  \<^verbatim>\<open>===\<close>. The array that \<^verbatim>\<open>filter\<close> itself returns is never used and is not
  allocated in the model.
\<close>

fun filterRoutes :: "heap \<Rightarrow> route \<Rightarrow> nat \<Rightarrow> addr list \<Rightarrow> nat \<Rightarrow> nat list option" where
  "filterRoutes h firstRoute i [] j = Some []"
| "filterRoutes h firstRoute i (a # as) j = do {
     otherRouteItem \<leftarrow> get_route h a;
     rest \<leftarrow> filterRoutes h firstRoute i as (Suc j);
     Some (if j = i then rest
           else if r_endpoint otherRouteItem = r_endpoint firstRoute
                   \<and> r_method otherRouteItem = r_method firstRoute
                then j # rest
                else rest)
   }"

text \<open>
  The outer \<^verbatim>\<open>forEach\<close>: for the route at index \<open>i\<close> a new array of indices is
  built and assigned to \<^verbatim>\<open>firstRoute.duplicates\<close>; the route object is updated in place.
\<close>

fun forEachRoute :: "heap \<Rightarrow> addr list \<Rightarrow> addr list \<Rightarrow> nat \<Rightarrow> heap option" where
  "forEachRoute h routes [] i = Some h"
| "forEachRoute h routes (a # as) i = do {
     firstRoute \<leftarrow> get_route h a;
     duplicatedRoutesIndexes \<leftarrow> filterRoutes h firstRoute i routes 0;
     let (d, h1) = alloc h (Nums duplicatedRoutesIndexes);
     forEachRoute (h1[a := Route (firstRoute\<lparr>r_duplicates := d\<rparr>)]) routes as (Suc i)
   }"

definition checkRoutesDuplicates :: "heap \<Rightarrow> addr \<Rightarrow> heap option" where
  "checkRoutesDuplicates h environment = do {
     env \<leftarrow> get_env h environment;
     routes \<leftarrow> get_refs h (e_routes env);
     forEachRoute h routes routes 0
   }"

text \<open>
  \<^verbatim>\<open>checkEnvironmentsDuplicates\<close>, lines 248-273: the same two loops over
  \<^verbatim>\<open>this.environments\<close>, comparing \<^verbatim>\<open>port\<close>.
\<close>

fun filterEnvironments :: "heap \<Rightarrow> environment \<Rightarrow> nat \<Rightarrow> addr list \<Rightarrow> nat \<Rightarrow> nat list option" where
  "filterEnvironments h environment i [] j = Some []"
| "filterEnvironments h environment i (a # as) j = do {
     otherEnvironmentItem \<leftarrow> get_env h a;
     rest \<leftarrow> filterEnvironments h environment i as (Suc j);
     Some (if j = i then rest
           else if e_port otherEnvironmentItem = e_port environment then j # rest
           else rest)
   }"

fun forEachEnvironment :: "heap \<Rightarrow> addr list \<Rightarrow> addr list \<Rightarrow> nat \<Rightarrow> heap option" where
  "forEachEnvironment h envs [] i = Some h"
| "forEachEnvironment h envs (a # as) i = do {
     environment \<leftarrow> get_env h a;
     duplicatedEnvironmentsIndexes \<leftarrow> filterEnvironments h environment i envs 0;
     let (d, h1) = alloc h (Nums duplicatedEnvironmentsIndexes);
     forEachEnvironment (h1[a := Env (environment\<lparr>e_duplicates := d\<rparr>)]) envs as (Suc i)
   }"

section \<open>The service\<close>

text \<open>
  The state of \<^verbatim>\<open>EnvironmentsService\<close>: the store, the fields of the class, and
  what the service sends to its collaborators. \<^verbatim>\<open>environments\<close> and the three schemas
  are addresses. An emitted event keeps the store as it stands when \<^verbatim>\<open>next\<close> is
  called. \<^verbatim>\<open>uuid()\<close> comes from the \<^verbatim>\<open>uuid/v1\<close> package: the model takes the
  sequence of its results as \<open>uuidSource\<close> and counts the calls.
\<close>

type_synonym callback = nat

record event =
  ev_environment :: slot
  ev_callback :: "callback option"
  ev_store :: heap

datatype message = EXPORT_ERROR | EXPORT_SUCCESS | IMPORT_ERROR | IMPORT_WRONG_CHECKSUM | IMPORT_SUCCESS

record service =
  store :: heap
  environments :: addr
  routesTotal :: int
  environmentSchema :: addr
  routeSchema :: addr
  customHeadersSchema :: addr
  environmentUpdateEvents :: "event list"
  alerts :: "(string \<times> message) list"
  stopRequests :: "addr list"
  uuidSource :: "nat \<Rightarrow> string"
  uuidCalls :: nat

definition uuid :: "service \<Rightarrow> string \<times> service" where
  "uuid s = (uuidSource s (uuidCalls s), s\<lparr>uuidCalls := Suc (uuidCalls s)\<rparr>)"

definition next_event :: "slot \<Rightarrow> callback option \<Rightarrow> service \<Rightarrow> service" where
  "next_event environment callback s =
     s\<lparr>environmentUpdateEvents := environmentUpdateEvents s @
         [\<lparr>ev_environment = environment, ev_callback = callback, ev_store = store s\<rparr>]\<rparr>"

definition showAlert :: "string \<Rightarrow> message \<Rightarrow> service \<Rightarrow> service" where
  "showAlert level msg s = s\<lparr>alerts := alerts s @ [(level, msg)]\<rparr>"


definition checkEnvironmentsDuplicates :: "service \<Rightarrow> service option" where
  "checkEnvironmentsDuplicates s = do {
     envs \<leftarrow> get_refs (store s) (environments s);
     h \<leftarrow> forEachEnvironment (store s) envs envs 0;
     Some (s\<lparr>store := h\<rparr>)
   }"

text \<open>
  Array primitives. \<^verbatim>\<open>xs[i]\<close> is \<^verbatim>\<open>undefined\<close> outside \<open>0..<length\<close>;
  \<^verbatim>\<open>xs.splice(i, 1)\<close> counts a negative \<open>i\<close> from the end, clamps the start into
  \<open>0..length\<close> and removes one element if there is one at the start.
\<close>

definition nth_opt :: "'a list \<Rightarrow> int \<Rightarrow> 'a option" where
  "nth_opt xs i = (if 0 \<le> i \<and> i < int (length xs) then Some (xs ! nat i) else None)"

definition splice1 :: "'a list \<Rightarrow> int \<Rightarrow> 'a list" where
  "splice1 xs i =
     (let len = int (length xs);
          start = (if i < 0 then max (len + i) 0 else min i len)
      in take (nat start) xs @ drop (Suc (nat start)) xs)"

subsection \<open>cloneDeep\<close>

text \<open>
  \<^verbatim>\<open>cloneDeep\<close> is lodash's: every object and array reached from the value is copied
  into a new one, and an object met twice is copied once (lodash keeps the copies made so
  far in a stack and returns the recorded copy). \<open>refs_of\<close> lists the objects a cell
  points to, in property order; \<open>map_refs\<close> redirects them.
\<close>

fun slot_refs :: "slot \<Rightarrow> addr list" where
  "slot_refs (Ref a) = [a]"
| "slot_refs _ = []"

fun map_slot :: "(addr \<Rightarrow> addr) \<Rightarrow> slot \<Rightarrow> slot" where
  "map_slot f (Ref a) = Ref (f a)"
| "map_slot f x = x"

fun refs_of :: "cell \<Rightarrow> addr list" where
  "refs_of (Env e) = slot_refs (e_instance e) @ [e_routes e] @ slot_refs (e_startedAt e)
                       @ slot_refs (e_modifiedAt e) @ [e_duplicates e]"
| "refs_of (Route r) = [r_customHeaders r] @ slot_refs (r_file r) @ [r_duplicates r]"
| "refs_of (Refs xs) = xs"
| "refs_of (Export x) = [x_data x]"
| "refs_of (Stub u d) = [d]"
| "refs_of _ = []"

fun map_refs :: "(addr \<Rightarrow> addr) \<Rightarrow> cell \<Rightarrow> cell" where
  "map_refs f (Env e) = Env (e\<lparr>e_instance := map_slot f (e_instance e), e_routes := f (e_routes e),
       e_startedAt := map_slot f (e_startedAt e), e_modifiedAt := map_slot f (e_modifiedAt e),
       e_duplicates := f (e_duplicates e)\<rparr>)"
| "map_refs f (Route r) = Route (r\<lparr>r_customHeaders := f (r_customHeaders r),
       r_file := map_slot f (r_file r), r_duplicates := f (r_duplicates r)\<rparr>)"
| "map_refs f (Refs xs) = Refs (map f xs)"
| "map_refs f (Export x) = Export (x\<lparr>x_data := f (x_data x)\<rparr>)"
| "map_refs f (Stub u d) = Stub u (f d)"
| "map_refs f c = c"

type_synonym memo = "(addr \<times> addr) list"

definition redirect :: "memo \<Rightarrow> addr \<Rightarrow> addr" where
  "redirect m b = (case map_of m b of Some b' \<Rightarrow> b' | None \<Rightarrow> b)"

text \<open>
  \<open>baseClone n h m a\<close> copies the object at \<open>a\<close>; \<open>m\<close> records the copies made so
  far. The objects the cell points to are copied first, then the cell is allocated with
  its references redirected to the copies. The first argument bounds the nesting depth:
  lodash's recursion ends because it visits an object once, and a chain of nested objects
  is no longer than the store, which is the bound \<open>cloneDeep\<close> passes. (lodash records
  the copy before it descends, which matters for cyclic structures only; the types of the
  collection have none.)
\<close>

fun baseClone :: "nat \<Rightarrow> heap \<Rightarrow> memo \<Rightarrow> addr \<Rightarrow> (addr \<times> heap \<times> memo) option"
  and cloneAll :: "nat \<Rightarrow> heap \<Rightarrow> memo \<Rightarrow> addr list \<Rightarrow> (heap \<times> memo) option" where
  "baseClone 0 h m a = None"
| "baseClone (Suc n) h m a =
     (case map_of m a of
        Some stacked \<Rightarrow> Some (stacked, h, m)
      | None \<Rightarrow> do {
          c \<leftarrow> lookup h a;
          (h1, m1) \<leftarrow> cloneAll n h m (refs_of c);
          let (result, h2) = alloc h1 (map_refs (redirect m1) c);
          Some (result, h2, (a, result) # m1)
        })"
| "cloneAll n h m [] = Some (h, m)"
| "cloneAll n h m (b # bs) = do {
     (b', h1, m1) \<leftarrow> baseClone n h m b;
     cloneAll n h1 m1 bs
   }"

definition cloneDeep :: "heap \<Rightarrow> addr \<Rightarrow> (addr \<times> heap) option" where
  "cloneDeep h a = map_option (\<lambda>(result, h', m). (result, h')) (baseClone (length h) h [] a)"

subsection \<open>The mutation API\<close>

text \<open>
  Lines 113 and 142 build the new route with the same expression:
  \<^verbatim>\<open>Object.assign({}, this.routeSchema, { customHeaders: [Object.assign({},
  this.customHeadersSchema, { uuid: uuid() })] })\<close>. The header is a copy of the header
  schema with a generated uuid; the route is a copy of the route schema with the new
  \<^verbatim>\<open>customHeaders\<close> array, every other property taken from the schema as it is.
\<close>

definition newRoute :: "service \<Rightarrow> (addr \<times> service) option" where
  "newRoute s = do {
     headerSchema \<leftarrow> get_header (store s) (customHeadersSchema s);
     let (u, s1) = uuid s;
     let (header, h1) = alloc (store s1) (Header (headerSchema\<lparr>h_uuid := u\<rparr>));
     let (headers, h2) = alloc h1 (Refs [header]);
     schema \<leftarrow> get_route h2 (routeSchema s1);
     let (route, h3) = alloc h2 (Route (schema\<lparr>r_customHeaders := headers\<rparr>));
     Some (route, s1\<lparr>store := h3\<rparr>)
   }"

text \<open>\<^verbatim>\<open>addEnvironment\<close>, lines 112-134. \<open>now\<close> is the clock read by \<^verbatim>\<open>new Date()\<close>.\<close>

definition addEnvironment :: "int \<Rightarrow> callback option \<Rightarrow> service \<Rightarrow> (nat \<times> service) option" where
  "addEnvironment now callback s = do {
     (route, s1) \<leftarrow> newRoute s;
     schema \<leftarrow> get_env (store s1) (environmentSchema s1);
     let (u, s2) = uuid s1;
     let (routes, h1) = alloc (store s2) (Refs [route]);
     let (date, h2) = alloc h1 (Date now);
     let (newEnvironment, h3) = alloc h2 (Env (schema\<lparr>e_uuid := u, e_name := ''New environment'',
            e_port := 3000, e_routes := routes, e_modifiedAt := Ref date\<rparr>));
     let s3 = s2\<lparr>store := h3, routesTotal := routesTotal s2 + 1\<rparr>;
     envs \<leftarrow> get_refs (store s3) (environments s3);
     let pushed = envs @ [newEnvironment];
     let s4 = s3\<lparr>store := (store s3)[environments s3 := Refs pushed]\<rparr>;
     Some (length pushed - 1, next_event (Ref newEnvironment) callback s4)
   }"

text \<open>\<^verbatim>\<open>addRoute\<close>, lines 141-149.\<close>

definition addRoute :: "addr \<Rightarrow> callback option \<Rightarrow> service \<Rightarrow> (nat \<times> service) option" where
  "addRoute environment callback s = do {
     (route, s1) \<leftarrow> newRoute s;
     env \<leftarrow> get_env (store s1) environment;
     routes \<leftarrow> get_refs (store s1) (e_routes env);
     let pushed = routes @ [route];
     let s2 = s1\<lparr>store := (store s1)[e_routes env := Refs pushed], routesTotal := routesTotal s1 + 1\<rparr>;
     Some (length pushed - 1, next_event (Ref environment) callback s2)
   }"

text \<open>\<^verbatim>\<open>removeRoute\<close>, lines 157-168.\<close>

definition removeRoute :: "addr \<Rightarrow> int \<Rightarrow> callback option \<Rightarrow> service \<Rightarrow> service option" where
  "removeRoute environment routeIndex callback s = do {
     env \<leftarrow> get_env (store s) environment;
     routes \<leftarrow> get_refs (store s) (e_routes env);
     let s1 = s\<lparr>store := (store s)[e_routes env := Refs (splice1 routes routeIndex)],
                routesTotal := routesTotal s - 1\<rparr>;
     h \<leftarrow> checkRoutesDuplicates (store s1) environment;
     Some (next_event (Ref environment) callback (s1\<lparr>store := h\<rparr>))
   }"


text \<open>
  \<^verbatim>\<open>duplicateEnvironment\<close>, lines 335-359. The properties of the object literal are
  evaluated in order: \<^verbatim>\<open>uuid()\<close>, the name (which raises when the index selects no
  environment), the new \<^verbatim>\<open>duplicates\<close> array, then \<^verbatim>\<open>cloneDeep\<close> of the routes.
  \<^verbatim>\<open>Object.assign\<close> copies every other property of the environment as it is.
\<close>

definition duplicateEnvironment :: "int \<Rightarrow> callback option \<Rightarrow> service \<Rightarrow> (nat \<times> service) option" where
  "duplicateEnvironment environmentIndex callback s = do {
     envs \<leftarrow> get_refs (store s) (environments s);
     let (u, s1) = uuid s;
     a \<leftarrow> nth_opt envs environmentIndex;
     env \<leftarrow> get_env (store s1) a;
     let (duplicates, h1) = alloc (store s1) (Nums []);
     (routes, h2) \<leftarrow> cloneDeep h1 (e_routes env);
     let (newEnvironment, h3) = alloc h2 (Env (env\<lparr>e_instance := Null, e_running := Some False,
            e_uuid := u, e_name := e_name env @ '' (copy)'', e_startedAt := Null,
            e_modifiedAt := Null, e_duplicates := duplicates, e_needRestart := Some False,
            e_routes := routes\<rparr>));
     original \<leftarrow> get_refs h3 (e_routes env);
     let s2 = s1\<lparr>store := h3, routesTotal := routesTotal s1 + int (length original)\<rparr>;
     envs2 \<leftarrow> get_refs (store s2) (environments s2);
     let pushed = envs2 @ [newEnvironment];
     let s3 = s2\<lparr>store := (store s2)[environments s2 := Refs pushed]\<rparr>;
     Some (length pushed - 1, next_event (Ref newEnvironment) callback s3)
   }"


subsection \<open>Persistence sanitization\<close>

text \<open>
  \<^verbatim>\<open>cleanBeforeSave\<close>, lines 280-294. The callback of \<^verbatim>\<open>map\<close> clones one
  environment and deletes four properties of the clone. The function ignores its
  argument and maps over \<^verbatim>\<open>this.environments\<close>; it returns the new array.
\<close>

fun mapClean :: "addr list \<Rightarrow> heap \<Rightarrow> (addr list \<times> heap) option" where
  "mapClean [] h = Some ([], h)"
| "mapClean (environment # as) h = do {
     (environmentCopy, h1) \<leftarrow> cloneDeep h environment;
     e \<leftarrow> get_env h1 environmentCopy;
     let h2 = h1[environmentCopy := Env (e\<lparr>e_instance := Absent, e_running := None,
                                            e_startedAt := Absent, e_needRestart := None\<rparr>)];
     (copies, h3) \<leftarrow> mapClean as h2;
     Some (environmentCopy # copies, h3)
   }"

definition cleanBeforeSave :: "addr \<Rightarrow> service \<Rightarrow> (addr \<times> service) option" where
  "cleanBeforeSave environments_arg s = do {
     envs \<leftarrow> get_refs (store s) (environments s);
     (copies, h) \<leftarrow> mapClean envs (store s);
     let (environmentsCopy, h') = alloc h (Refs copies);
     Some (environmentsCopy, s\<lparr>store := h'\<rparr>)
   }"

subsection \<open>Migration, uuid renewal and import\<close>

text \<open>
  \<^verbatim>\<open>migrateData\<close>, lines 302-308. \<^verbatim>\<open>Migrations\<close> is imported from
  \<^verbatim>\<open>app/libs/migrations.lib\<close>, which is not in the source: the list is a parameter, each
  migration a function that changes the state through the environment it is given.
\<close>

type_synonym migration = "addr \<Rightarrow> service \<Rightarrow> service option"

fun forEachMigrated :: "migration \<Rightarrow> addr list \<Rightarrow> service \<Rightarrow> service option" where
  "forEachMigrated migration [] s = Some s"
| "forEachMigrated migration (environment # as) s = do {
     s1 \<leftarrow> migration environment s;
     forEachMigrated migration as s1
   }"

fun migrateData :: "migration list \<Rightarrow> addr \<Rightarrow> service \<Rightarrow> service option" where
  "migrateData [] environments_arg s = Some s"
| "migrateData (migration # Migrations) environments_arg s = do {
     envs \<leftarrow> get_refs (store s) environments_arg;
     s1 \<leftarrow> forEachMigrated migration envs s;
     migrateData Migrations environments_arg s1
   }"

text \<open>\<^verbatim>\<open>renewUUIDs\<close>, lines 315-327: three nested \<^verbatim>\<open>forEach\<close> loops.\<close>

fun renewHeaders :: "addr list \<Rightarrow> service \<Rightarrow> service option" where
  "renewHeaders [] s = Some s"
| "renewHeaders (customHeader # as) s = do {
     x \<leftarrow> get_header (store s) customHeader;
     let (u, s1) = uuid s;
     renewHeaders as (s1\<lparr>store := (store s1)[customHeader := Header (x\<lparr>h_uuid := u\<rparr>)]\<rparr>)
   }"

fun renewRoutes :: "addr list \<Rightarrow> service \<Rightarrow> service option" where
  "renewRoutes [] s = Some s"
| "renewRoutes (route # as) s = do {
     r \<leftarrow> get_route (store s) route;
     let (u, s1) = uuid s;
     let s2 = s1\<lparr>store := (store s1)[route := Route (r\<lparr>r_uuid := u\<rparr>)]\<rparr>;
     headers \<leftarrow> get_refs (store s2) (r_customHeaders r);
     s3 \<leftarrow> renewHeaders headers s2;
     renewRoutes as s3
   }"

fun renewEnvironments :: "addr list \<Rightarrow> service \<Rightarrow> service option" where
  "renewEnvironments [] s = Some s"
| "renewEnvironments (environment # as) s = do {
     e \<leftarrow> get_env (store s) environment;
     let (u, s1) = uuid s;
     let s2 = s1\<lparr>store := (store s1)[environment := Env (e\<lparr>e_uuid := u\<rparr>)]\<rparr>;
     routes \<leftarrow> get_refs (store s2) (e_routes e);
     s3 \<leftarrow> renewRoutes routes s2;
     renewEnvironments as s3
   }"

definition renewUUIDs :: "addr \<Rightarrow> service \<Rightarrow> service option" where
  "renewUUIDs environments_arg s = do {
     envs \<leftarrow> get_refs (store s) environments_arg;
     renewEnvironments envs s
   }"

text \<open>
  \<^verbatim>\<open>importEnvironmentsFile\<close>, lines 408-436. The dialog gives the chosen paths or
  nothing; reading the file fails, or gives a text that \<^verbatim>\<open>JSON.parse\<close> rejects (an
  exception), or gives the document, which \<^verbatim>\<open>JSON.parse\<close> has put into the store.
  \<^verbatim>\<open>DataService.verifyImportChecksum\<close> is not in the source and is a parameter: a
  test on the document.
\<close>

datatype readResult = ReadError | Unparsable | Document addr

definition assignData :: "addr \<Rightarrow> addr \<Rightarrow> service \<Rightarrow> service option" where
  "assignData importData v s = do {
     doc \<leftarrow> get_export (store s) importData;
     Some (s\<lparr>store := (store s)[importData := Export (doc\<lparr>x_data := v\<rparr>)]\<rparr>)
   }"

definition importDocument :: "migration list \<Rightarrow> addr \<Rightarrow> service \<Rightarrow> service option" where
  "importDocument Migrations importData s = do {
     doc \<leftarrow> get_export (store s) importData;
     s1 \<leftarrow> migrateData Migrations (x_data doc) s;
     s2 \<leftarrow> assignData importData (x_data doc) s1;
     doc2 \<leftarrow> get_export (store s2) importData;
     s3 \<leftarrow> renewUUIDs (x_data doc2) s2;
     s4 \<leftarrow> assignData importData (x_data doc2) s3;
     doc4 \<leftarrow> get_export (store s4) importData;
     imported \<leftarrow> get_refs (store s4) (x_data doc4);
     envs \<leftarrow> get_refs (store s4) (environments s4);
     let s5 = s4\<lparr>store := (store s4)[environments s4 := Refs (envs @ imported)]\<rparr>;
     s6 \<leftarrow> checkEnvironmentsDuplicates s5;
     Some (showAlert ''success'' IMPORT_SUCCESS s6)
   }"

definition importEnvironmentsFile ::
  "(heap \<Rightarrow> addr \<Rightarrow> bool) \<Rightarrow> migration list \<Rightarrow> string list option \<Rightarrow> readResult
     \<Rightarrow> service \<Rightarrow> service option" where
  "importEnvironmentsFile verifyImportChecksum Migrations file content s =
     (case file of
        None \<Rightarrow> Some s
      | Some [] \<Rightarrow> Some s
      | Some (path # _) \<Rightarrow>
          if path = [] then Some s
          else (case content of
                  ReadError \<Rightarrow> Some (showAlert ''error'' IMPORT_ERROR s)
                | Unparsable \<Rightarrow> None
                | Document importData \<Rightarrow>
                    if \<not> verifyImportChecksum (store s) importData
                    then Some (showAlert ''error'' IMPORT_WRONG_CHECKSUM s)
                    else importDocument Migrations importData s))"

section \<open>Reading the store\<close>

text \<open>
  What the claims speak of, read from a store: the key a route is compared by, the port
  an environment is compared by, and the contents of a \<^verbatim>\<open>duplicates\<close> array.
\<close>

definition route_key :: "heap \<Rightarrow> addr \<Rightarrow> (string \<times> string) option" where
  "route_key h a = map_option (\<lambda>r. (r_endpoint r, r_method r)) (get_route h a)"

definition routeDuplicates :: "heap \<Rightarrow> addr \<Rightarrow> nat list option" where
  "routeDuplicates h a = do { r \<leftarrow> get_route h a; get_nums h (r_duplicates r) }"

definition env_port :: "heap \<Rightarrow> addr \<Rightarrow> int option" where
  "env_port h a = map_option e_port (get_env h a)"

definition environmentDuplicates :: "heap \<Rightarrow> addr \<Rightarrow> nat list option" where
  "environmentDuplicates h a = do { e \<leftarrow> get_env h a; get_nums h (e_duplicates e) }"

section \<open>Example stores\<close>

text \<open>
  Concrete routes, environments and stores on which the theorems below are instantiated.
\<close>

definition exRoute :: "string \<Rightarrow> string \<Rightarrow> string \<Rightarrow> addr \<Rightarrow> addr \<Rightarrow> route" where
  "exRoute u m ep hs d = \<lparr>r_uuid = u, r_method = m, r_endpoint = ep, r_body = ''42'', r_latency = 0,
     r_statusCode = ''200'', r_customHeaders = hs, r_file = Null, r_duplicates = d\<rparr>"

definition exEnv :: "string \<Rightarrow> int \<Rightarrow> addr \<Rightarrow> addr \<Rightarrow> environment" where
  "exEnv u p rs d = \<lparr>e_uuid = u, e_running = Some False, e_instance = Null, e_name = ''Example'',
     e_endpointPrefix = '''', e_latency = 0, e_port = p, e_routes = rs, e_startedAt = Null,
     e_modifiedAt = Null, e_duplicates = d, e_needRestart = Some False, e_proxyMode = False,
     e_proxyHost = '''', e_https = False, e_cors = True\<rparr>"

definition exHeader :: customHeader where
  "exHeader = \<lparr>h_uuid = ''h1'', h_key = ''Content-Type'', h_value = ''text/plain''\<rparr>"

text \<open>
  The three schemas as the class declares them (lines 34-65); the arrays of a schema are
  objects of their own.
\<close>

definition environmentSchemaValue :: "addr \<Rightarrow> addr \<Rightarrow> environment" where
  "environmentSchemaValue routes duplicates = \<lparr>e_uuid = '''', e_running = Some False, e_instance = Null,
     e_name = '''', e_endpointPrefix = '''', e_latency = 0, e_port = 3000, e_routes = routes,
     e_startedAt = Null, e_modifiedAt = Null, e_duplicates = duplicates, e_needRestart = Some False,
     e_proxyMode = False, e_proxyHost = '''', e_https = False, e_cors = True\<rparr>"

definition routeSchemaValue :: "addr \<Rightarrow> addr \<Rightarrow> route" where
  "routeSchemaValue customHeaders duplicates = \<lparr>r_uuid = '''', r_method = ''get'', r_endpoint = '''',
     r_body = ''Environment is running.'', r_latency = 0, r_statusCode = ''200'',
     r_customHeaders = customHeaders, r_file = Null, r_duplicates = duplicates\<rparr>"

definition customHeadersSchemaValue :: customHeader where
  "customHeadersSchemaValue = \<lparr>h_uuid = '''', h_key = ''Content-Type'', h_value = ''text/plain''\<rparr>"

text \<open>
  The service right after construction from a stored empty collection: the schemas, and
  \<^verbatim>\<open>environments = []\<close>. The uuid generator of the examples gives \<^verbatim>\<open>u\<close>,
  \<^verbatim>\<open>uu\<close>, \<^verbatim>\<open>uuu\<close>, ...
\<close>

definition emptyService :: service where
  "emptyService = \<lparr>store = [Refs [], Nums [], Env (environmentSchemaValue 0 1),
                             Refs [], Nums [], Route (routeSchemaValue 3 4),
                             Header customHeadersSchemaValue, Refs []],
     environments = 7, routesTotal = 0, environmentSchema = 2, routeSchema = 5,
     customHeadersSchema = 6, environmentUpdateEvents = [], alerts = [], stopRequests = [],
     uuidSource = (\<lambda>n. replicate (Suc n) CHR ''u''), uuidCalls = 0\<rparr>"

text \<open>
  One collection (address 16) of two environments on port 3000. The first (address 12)
  has three routes, two of them \<^verbatim>\<open>get answer\<close> and one \<^verbatim>\<open>post answer\<close>; the second
  (address 15) is running and has no route. The schemas follow at addresses 17 to 23.
\<close>

definition exStore :: heap where
  "exStore =
     [Header exHeader, Refs [0], Nums [], Route (exRoute ''r1'' ''get'' ''answer'' 1 2),
      Refs [], Nums [], Route (exRoute ''r2'' ''get'' ''answer'' 4 5),
      Refs [], Nums [], Route (exRoute ''r3'' ''post'' ''answer'' 7 8),
      Refs [3, 6, 9], Nums [], Env (exEnv ''e1'' 3000 10 11),
      Refs [], Nums [], Env ((exEnv ''e2'' 3000 13 14)\<lparr>e_running := Some True\<rparr>),
      Refs [12, 15],
      Refs [], Nums [], Env (environmentSchemaValue 17 18),
      Refs [], Nums [], Route (routeSchemaValue 20 21),
      Header customHeadersSchemaValue]"

definition exService :: service where
  "exService = \<lparr>store = exStore, environments = 16, routesTotal = 3, environmentSchema = 19,
     routeSchema = 22, customHeadersSchema = 23, environmentUpdateEvents = [], alerts = [],
     stopRequests = [], uuidSource = (\<lambda>n. replicate (Suc n) CHR ''u''), uuidCalls = 0\<rparr>"

text \<open>The first environment with three routes that are all \<^verbatim>\<open>get answer\<close>.\<close>

definition tripleService :: service where
  "tripleService = exService\<lparr>store := exStore[9 := Route (exRoute ''r3'' ''get'' ''answer'' 7 8)]\<rparr>"

section \<open>Copies and sharing\<close>

text \<open>
  \<open>shallow n h a\<close>: the object at \<open>a\<close> and everything nested in it exist in the store
  and the nesting is less than \<open>n\<close> deep (so there is no cycle). \<open>reach h a b\<close>: the
  object at \<open>b\<close> is \<open>a\<close> itself or can be reached from it through properties and array
  elements. \<open>copy_of h h' a a'\<close>: the object at \<open>a'\<close> in \<open>h'\<close> has the same constructor
  and the same primitive properties as the object at \<open>a\<close> in \<open>h\<close>, \<^verbatim>\<open>null\<close> and absent
  properties in the same places, and every object it points to is in turn a copy of the
  corresponding one: a structural deep copy.
\<close>

primrec shallow :: "nat \<Rightarrow> heap \<Rightarrow> addr \<Rightarrow> bool" where
  "shallow 0 h a = False"
| "shallow (Suc n) h a = (case lookup h a of None \<Rightarrow> False | Some c \<Rightarrow> (\<forall>b\<in>set (refs_of c). shallow n h b))"

inductive reach :: "heap \<Rightarrow> addr \<Rightarrow> addr \<Rightarrow> bool" for h a where
  reach_here: "reach h a a"
| reach_step: "reach h a b \<Longrightarrow> lookup h b = Some c \<Longrightarrow> d \<in> set (refs_of c) \<Longrightarrow> reach h a d"

inductive copy_of :: "heap \<Rightarrow> heap \<Rightarrow> addr \<Rightarrow> addr \<Rightarrow> bool" for h h' where
  copy_ofI: "lookup h a = Some c \<Longrightarrow> lookup h' a' = Some c'
     \<Longrightarrow> map_refs (\<lambda>_. 0) c' = map_refs (\<lambda>_. 0) c
     \<Longrightarrow> list_all2 (copy_of h h') (refs_of c) (refs_of c')
     \<Longrightarrow> copy_of h h' a a'"

text \<open>
  \<open>keeps h h'\<close>: every object of \<open>h\<close> is unchanged in \<open>h'\<close>. \<open>memo_ok\<close> and
  \<open>fresh_closed\<close> are the invariants of the cloning loop: recorded copies are new
  objects and copies of what they stand for; new objects point to new objects only.
\<close>

definition keeps :: "heap \<Rightarrow> heap \<Rightarrow> bool" where
  "keeps h h' \<longleftrightarrow> length h \<le> length h' \<and> (\<forall>z<length h. lookup h' z = lookup h z)"

definition memo_ok :: "heap \<Rightarrow> heap \<Rightarrow> memo \<Rightarrow> bool" where
  "memo_ok h0 h m \<longleftrightarrow> (\<forall>x y. map_of m x = Some y \<longrightarrow> length h0 \<le> y \<and> copy_of h0 h x y)"

definition fresh_closed :: "nat \<Rightarrow> heap \<Rightarrow> bool" where
  "fresh_closed n h \<longleftrightarrow> (\<forall>b c. n \<le> b \<longrightarrow> lookup h b = Some c \<longrightarrow> (\<forall>d\<in>set (refs_of c). n \<le> d))"


text \<open>
  \<open>cleaned_copy h h' a a'\<close>: the environment at \<open>a'\<close> in \<open>h'\<close> is the environment at
  \<open>a\<close> in \<open>h\<close> without \<^verbatim>\<open>instance\<close>, \<^verbatim>\<open>running\<close>, \<^verbatim>\<open>startedAt\<close> and
  \<^verbatim>\<open>needRestart\<close>, every other primitive property equal, and its routes, its
  \<^verbatim>\<open>modifiedAt\<close> and its \<^verbatim>\<open>duplicates\<close> structural deep copies.
\<close>

fun slot_rel :: "(addr \<Rightarrow> addr \<Rightarrow> bool) \<Rightarrow> slot \<Rightarrow> slot \<Rightarrow> bool" where
  "slot_rel R (Ref a) (Ref b) = R a b"
| "slot_rel R Null Null = True"
| "slot_rel R Absent Absent = True"
| "slot_rel R _ _ = False"

definition cleaned_copy :: "heap \<Rightarrow> heap \<Rightarrow> addr \<Rightarrow> addr \<Rightarrow> bool" where
  "cleaned_copy h h' a a' \<longleftrightarrow>
     (\<exists>e e'. get_env h a = Some e \<and> get_env h' a' = Some e'
        \<and> e' = e\<lparr>e_instance := Absent, e_running := None, e_startedAt := Absent, e_needRestart := None,
                 e_routes := e_routes e', e_modifiedAt := e_modifiedAt e', e_duplicates := e_duplicates e'\<rparr>
        \<and> copy_of h h' (e_routes e) (e_routes e')
        \<and> slot_rel (copy_of h h') (e_modifiedAt e) (e_modifiedAt e')
        \<and> copy_of h h' (e_duplicates e) (e_duplicates e'))"

text \<open>
  The uuids of the routes of one environment, of the routes of the whole collection (in
  collection order), and of the custom headers of one route.
\<close>

definition routeUuids :: "heap \<Rightarrow> addr \<Rightarrow> string list option" where
  "routeUuids h environment = do {
     env \<leftarrow> get_env h environment;
     routes \<leftarrow> get_refs h (e_routes env);
     those (map (\<lambda>a. map_option r_uuid (get_route h a)) routes)
   }"

definition allRouteUuids :: "service \<Rightarrow> string list option" where
  "allRouteUuids s = do {
     envs \<leftarrow> get_refs (store s) (environments s);
     uuids \<leftarrow> those (map (routeUuids (store s)) envs);
     Some (concat uuids)
   }"

definition headerUuids :: "heap \<Rightarrow> addr \<Rightarrow> string list option" where
  "headerUuids h route = do {
     r \<leftarrow> get_route h route;
     headers \<leftarrow> get_refs h (r_customHeaders r);
     those (map (\<lambda>a. map_option h_uuid (get_header h a)) headers)
   }"

section \<open>Migrations and renewed uuids\<close>

text \<open>
  What an import is checked against. The spec describes the Migration Pipeline as an
  ordered sequence of steps, every step applied, in order, to every entity of the incoming
  collection. \<open>migrationPipeline\<close> follows these words: the list of all pairs of a step
  and an environment, the steps in order and under each step the environments of the
  payload in order, applied one after the other; a step that raises ends the run.
\<close>

fun applySteps :: "(migration \<times> addr) list \<Rightarrow> service \<Rightarrow> service option" where
  "applySteps [] s = Some s"
| "applySteps ((migration, environment) # steps) s = do {
     s1 \<leftarrow> migration environment s;
     applySteps steps s1
   }"

definition migrationPipeline :: "migration list \<Rightarrow> addr list \<Rightarrow> service \<Rightarrow> service option" where
  "migrationPipeline Migrations payload =
     applySteps (concat (map (\<lambda>migration. map (\<lambda>environment. (migration, environment)) payload) Migrations))"

text \<open>
  \<open>cell_uuid\<close> reads the uuid of an environment, route or header; \<open>erase_uuid\<close> blanks
  it, so that two objects with equal erasure differ in their uuid at most; \<open>set_uuid\<close>
  writes it. \<open>same_shape h h'\<close>: the two stores hold the same objects up to uuids.
  \<open>typed_route\<close> and \<open>typed_env\<close> say that the arrays hold what \<^verbatim>\<open>RouteType\<close> and
  \<^verbatim>\<open>EnvironmentType\<close> declare.
\<close>

fun cell_uuid :: "cell \<Rightarrow> string option" where
  "cell_uuid (Env e) = Some (e_uuid e)"
| "cell_uuid (Route r) = Some (r_uuid r)"
| "cell_uuid (Header x) = Some (h_uuid x)"
| "cell_uuid _ = None"

fun erase_uuid :: "cell \<Rightarrow> cell" where
  "erase_uuid (Env e) = Env (e\<lparr>e_uuid := []\<rparr>)"
| "erase_uuid (Route r) = Route (r\<lparr>r_uuid := []\<rparr>)"
| "erase_uuid (Header x) = Header (x\<lparr>h_uuid := []\<rparr>)"
| "erase_uuid c = c"

fun set_uuid :: "string \<Rightarrow> cell \<Rightarrow> cell" where
  "set_uuid u (Env e) = Env (e\<lparr>e_uuid := u\<rparr>)"
| "set_uuid u (Route r) = Route (r\<lparr>r_uuid := u\<rparr>)"
| "set_uuid u (Header x) = Header (x\<lparr>h_uuid := u\<rparr>)"
| "set_uuid u c = c"

definition same_shape :: "heap \<Rightarrow> heap \<Rightarrow> bool" where
  "same_shape h h' \<longleftrightarrow> (\<forall>a. map_option erase_uuid (lookup h' a) = map_option erase_uuid (lookup h a))"

definition typed_route :: "heap \<Rightarrow> addr \<Rightarrow> bool" where
  "typed_route h a \<longleftrightarrow> (\<exists>r hs. get_route h a = Some r \<and> get_refs h (r_customHeaders r) = Some hs
       \<and> (\<forall>x\<in>set hs. get_header h x \<noteq> None))"

definition typed_env :: "heap \<Rightarrow> addr \<Rightarrow> bool" where
  "typed_env h a \<longleftrightarrow> (\<exists>e rs. get_env h a = Some e \<and> get_refs h (e_routes e) = Some rs
       \<and> (\<forall>r\<in>set rs. typed_route h r))"

text \<open>
  \<open>payload_objects h es\<close>: the environments of a payload, each followed by its routes,
  each route followed by its custom headers. These are the objects that have a uuid, in
  the order in which the three nested loops of \<^verbatim>\<open>renewUUIDs\<close> meet them.
  \<open>assign_uuids src k objs h\<close> writes to the \<open>i\<close>-th object of the list the uuid
  \<open>src (k + i)\<close>; \<open>renewed_state s objs\<close> is the state after one call of \<^verbatim>\<open>uuid()\<close>
  for each object of the list.
\<close>

definition route_objects :: "heap \<Rightarrow> addr \<Rightarrow> addr list" where
  "route_objects h r = r #
     (case get_route h r of
        None \<Rightarrow> []
      | Some rt \<Rightarrow> (case get_refs h (r_customHeaders rt) of None \<Rightarrow> [] | Some hs \<Rightarrow> hs))"

definition env_objects :: "heap \<Rightarrow> addr \<Rightarrow> addr list" where
  "env_objects h a = a #
     (case get_env h a of
        None \<Rightarrow> []
      | Some e \<Rightarrow> (case get_refs h (e_routes e) of
                     None \<Rightarrow> []
                   | Some rs \<Rightarrow> concat (map (route_objects h) rs)))"

definition payload_objects :: "heap \<Rightarrow> addr list \<Rightarrow> addr list" where
  "payload_objects h es = concat (map (env_objects h) es)"

fun assign_uuids :: "(nat \<Rightarrow> string) \<Rightarrow> nat \<Rightarrow> addr list \<Rightarrow> heap \<Rightarrow> heap" where
  "assign_uuids src k [] h = h"
| "assign_uuids src k (a # as) h = assign_uuids src (Suc k) as (h[a := set_uuid (src k) (h ! a)])"

definition renewed_state :: "service \<Rightarrow> addr list \<Rightarrow> service" where
  "renewed_state s objs = s\<lparr>uuidCalls := uuidCalls s + length objs,
     store := assign_uuids (uuidSource s) (uuidCalls s) objs (store s)\<rparr>"

text \<open>
  \<open>owned_arrays h a\<close>: the \<^verbatim>\<open>routes\<close> array of the environment at \<open>a\<close> and the
  \<^verbatim>\<open>customHeaders\<close> arrays of its routes. \<open>renewed_object h1 h' u a\<close>: the
  environment, route or header at \<open>a\<close> is in \<open>h'\<close> what it was in \<open>h1\<close> except for its
  uuid, which is \<open>u\<close> (and, for an environment, except for \<^verbatim>\<open>duplicates\<close>, which the
  duplicate pass replaces).
\<close>

definition owned_arrays :: "heap \<Rightarrow> addr \<Rightarrow> addr list" where
  "owned_arrays h a =
     (case get_env h a of
        None \<Rightarrow> []
      | Some e \<Rightarrow> e_routes e #
          (case get_refs h (e_routes e) of
             None \<Rightarrow> []
           | Some rs \<Rightarrow> concat (map (\<lambda>r. case get_route h r of None \<Rightarrow> [] | Some rt \<Rightarrow> [r_customHeaders rt]) rs)))"

definition renewed_object :: "heap \<Rightarrow> heap \<Rightarrow> string \<Rightarrow> addr \<Rightarrow> bool" where
  "renewed_object h1 h' u a \<longleftrightarrow>
     (case lookup h1 a of
        Some (Env e1) \<Rightarrow> (case lookup h' a of
                           Some (Env e') \<Rightarrow> e' = e1\<lparr>e_uuid := u, e_duplicates := e_duplicates e'\<rparr>
                         | _ \<Rightarrow> False)
      | Some (Route r1) \<Rightarrow> lookup h' a = Some (Route (r1\<lparr>r_uuid := u\<rparr>))
      | Some (Header x1) \<Rightarrow> lookup h' a = Some (Header (x1\<lparr>h_uuid := u\<rparr>))
      | _ \<Rightarrow> False)"

text \<open>
  An import: the example service with a parsed document at address 32, whose payload
  (address 31) is one environment with one route and one header, with uuids that also
  occur in the live collection. The example checksum test compares the stored checksum
  with a fixed value; the example migration sets \<^verbatim>\<open>proxyHost\<close>. In the tampered
  service the stored checksum is another one.
\<close>

definition importService :: service where
  "importService = exService\<lparr>store := exStore @
     [Header exHeader, Refs [24], Nums [], Route (exRoute ''r1'' ''get'' ''imported'' 25 26),
      Refs [27], Nums [], Env (exEnv ''e1'' 3000 28 29),
      Refs [30], Export \<lparr>x_data = 31, x_checksum = ''c0ffee''\<rparr>]\<rparr>"

definition exVerify :: "heap \<Rightarrow> addr \<Rightarrow> bool" where
  "exVerify h importData \<longleftrightarrow> map_option x_checksum (get_export h importData) = Some ''c0ffee''"

definition exMigration :: migration where
  "exMigration environment s =
     (case get_env (store s) environment of
        None \<Rightarrow> None
      | Some e \<Rightarrow> Some (s\<lparr>store := (store s)[environment := Env (e\<lparr>e_proxyHost := ''localhost''\<rparr>)]\<rparr>))"

definition tamperedService :: service where
  "tamperedService = importService\<lparr>store := (store importService)
     [32 := Export \<lparr>x_data = 31, x_checksum = ''0badc0de''\<rparr>]\<rparr>"

text \<open>
  A larger import: the document at address 39 has a payload (address 38) of two
  environments. The first (address 34, port 3000) has two routes (addresses 28 and 31),
  the first of them with two custom headers (addresses 24 and 25); the second (address
  37, port 3001) has no route. The uuids \<^verbatim>\<open>e1\<close>, \<^verbatim>\<open>e2\<close>, \<^verbatim>\<open>r1\<close>, \<^verbatim>\<open>r2\<close> and
  \<^verbatim>\<open>h1\<close> also occur in the live collection. A second example migration sets
  \<^verbatim>\<open>endpointPrefix\<close>; \<open>bundleMigrated\<close> is the state after both migrations.
\<close>

definition bundleService :: service where
  "bundleService = exService\<lparr>store := exStore @
     [Header exHeader, Header (exHeader\<lparr>h_uuid := ''h2''\<rparr>), Refs [24, 25], Nums [],
      Route (exRoute ''r1'' ''get'' ''imported'' 26 27),
      Refs [], Nums [], Route (exRoute ''r2'' ''post'' ''imported'' 29 30),
      Refs [28, 31], Nums [], Env (exEnv ''e1'' 3000 32 33),
      Refs [], Nums [], Env (exEnv ''e2'' 3001 35 36),
      Refs [34, 37], Export \<lparr>x_data = 38, x_checksum = ''c0ffee''\<rparr>]\<rparr>"

definition prefixMigration :: migration where
  "prefixMigration environment s =
     (case get_env (store s) environment of
        None \<Rightarrow> None
      | Some e \<Rightarrow> Some (s\<lparr>store := (store s)[environment := Env (e\<lparr>e_endpointPrefix := ''api''\<rparr>)]\<rparr>))"

definition bundleMigrated :: service where
  "bundleMigrated = bundleService\<lparr>store := (store bundleService)
     [34 := Env ((exEnv ''e1'' 3000 32 33)\<lparr>e_proxyHost := ''localhost'', e_endpointPrefix := ''api''\<rparr>),
      37 := Env ((exEnv ''e2'' 3001 35 36)\<lparr>e_proxyHost := ''localhost'', e_endpointPrefix := ''api''\<rparr>)]\<rparr>"

section \<open>Counting routes\<close>


definition others_kept :: "addr set \<Rightarrow> service \<Rightarrow> service \<Rightarrow> bool" where
  "others_kept X s s' \<longleftrightarrow> (\<forall>b<length (store s). b \<notin> X \<longrightarrow> lookup (store s') b = lookup (store s) b)"

section \<open>The store: basic facts\<close>

lemma lookup_Some_lt: "lookup h a = Some c \<Longrightarrow> a < length h"
  by (simp add: lookup_def split: if_splits)

lemma lookup_append_old: "a < length h \<Longrightarrow> lookup (h @ xs) a = lookup h a"
  by (simp add: lookup_def nth_append)

lemma lookup_append_new: "lookup (h @ [c]) (length h) = Some c"
  by (simp add: lookup_def)

lemma lookup_update: "lookup (h[a := c]) b = (if b = a \<and> a < length h then Some c else lookup h b)"
  by (simp add: lookup_def)

lemma get_route_lt: "get_route h a = Some r \<Longrightarrow> a < length h"
  by (auto simp: get_route_def dest: lookup_Some_lt split: option.splits cell.splits)

lemma get_env_lt: "get_env h a = Some e \<Longrightarrow> a < length h"
  by (auto simp: get_env_def dest: lookup_Some_lt split: option.splits cell.splits)

lemma get_refs_lt: "get_refs h a = Some xs \<Longrightarrow> a < length h"
  by (auto simp: get_refs_def dest: lookup_Some_lt split: option.splits cell.splits)

lemma get_route_lookup: "get_route h a = Some r \<longleftrightarrow> lookup h a = Some (Route r)"
  by (auto simp: get_route_def split: option.splits cell.splits)

lemma get_env_lookup: "get_env h a = Some e \<longleftrightarrow> lookup h a = Some (Env e)"
  by (auto simp: get_env_def split: option.splits cell.splits)

lemma get_refs_lookup: "get_refs h a = Some xs \<longleftrightarrow> lookup h a = Some (Refs xs)"
  by (auto simp: get_refs_def split: option.splits cell.splits)

lemma get_nums_lookup: "get_nums h a = Some xs \<longleftrightarrow> lookup h a = Some (Nums xs)"
  by (auto simp: get_nums_def split: option.splits cell.splits)

lemma get_header_lookup: "get_header h a = Some x \<longleftrightarrow> lookup h a = Some (Header x)"
  by (auto simp: get_header_def split: option.splits cell.splits)

section \<open>The duplicate passes\<close>

lemma filterRoutes_eq:
  "\<forall>a\<in>set as. get_route h a \<noteq> None \<Longrightarrow>
   filterRoutes h first i as j =
     Some [k \<leftarrow> [j..<j + length as]. k \<noteq> i \<and> route_key h (as ! (k - j)) = Some (r_endpoint first, r_method first)]"
proof (induction as arbitrary: j)
  case Nil
  then show ?case by simp
next
  case (Cons a as)
  from Cons.prems obtain r where r: "get_route h a = Some r" by auto
  have ih: "filterRoutes h first i as (Suc j) =
     Some [k \<leftarrow> [Suc j..<Suc j + length as]. k \<noteq> i \<and> route_key h (as ! (k - Suc j)) = Some (r_endpoint first, r_method first)]"
    using Cons.IH [of "Suc j"] Cons.prems by simp
  have cong: "[k \<leftarrow> [Suc j..<Suc j + length as]. k \<noteq> i \<and> route_key h ((a # as) ! (k - j)) = Some (r_endpoint first, r_method first)]
      = [k \<leftarrow> [Suc j..<Suc j + length as]. k \<noteq> i \<and> route_key h (as ! (k - Suc j)) = Some (r_endpoint first, r_method first)]"
  proof (rule filter_cong)
    fix k assume "k \<in> set [Suc j..<Suc j + length as]"
    then have "k - j = Suc (k - Suc j)" by auto
    then show "(k \<noteq> i \<and> route_key h ((a # as) ! (k - j)) = Some (r_endpoint first, r_method first))
       = (k \<noteq> i \<and> route_key h (as ! (k - Suc j)) = Some (r_endpoint first, r_method first))"
      by simp
  qed simp
  have upt: "[j..<j + length (a # as)] = j # [Suc j..<Suc j + length as]"
    by (subst upt_conv_Cons) auto
  show ?case
    unfolding upt using cong
    by (simp add: r ih route_key_def)
qed

lemma forEachRoute_spec:
  assumes "distinct as" and "set as \<subseteq> set rs" and "\<forall>a\<in>set rs. get_route h a \<noteq> None"
  shows "\<exists>h'. forEachRoute h rs as i = Some h' \<and> length h \<le> length h'
     \<and> (\<forall>b. b < length h \<longrightarrow> b \<notin> set as \<longrightarrow> lookup h' b = lookup h b)
     \<and> (\<forall>a\<in>set rs. route_key h' a = route_key h a)
     \<and> (\<forall>k<length as. \<exists>r d. get_route h (as ! k) = Some r
            \<and> get_route h' (as ! k) = Some (r\<lparr>r_duplicates := d\<rparr>)
            \<and> get_nums h' d = Some [j \<leftarrow> [0..<length rs]. j \<noteq> i + k \<and> route_key h (rs ! j) = route_key h (as ! k)])"
  using assms
proof (induction as arbitrary: h i)
  case Nil
  then show ?case by simp
next
  case (Cons a as)
  from Cons.prems have a_rs: "a \<in> set rs" and a_as: "a \<notin> set as" and das: "distinct as"
    and sub: "set as \<subseteq> set rs" by auto
  from Cons.prems a_rs obtain first where first: "get_route h a = Some first" by auto
  then have a_lt: "a < length h" by (rule get_route_lt)
  have lt: "\<And>x. x \<in> set rs \<Longrightarrow> x < length h"
    using Cons.prems(3) get_route_lt by fastforce
  define ds where "ds = [j \<leftarrow> [0..<length rs]. j \<noteq> i \<and> route_key h (rs ! j) = Some (r_endpoint first, r_method first)]"
  have fr: "filterRoutes h first i rs 0 = Some ds"
    using filterRoutes_eq [OF Cons.prems(3), of first i 0] by (simp add: ds_def)
  define h2 where "h2 = (h @ [Nums ds])[a := Route (first\<lparr>r_duplicates := length h\<rparr>)]"
  have step: "forEachRoute h rs (a # as) i = forEachRoute h2 rs as (Suc i)"
    by (simp add: first fr alloc_def h2_def)
  have len2: "length h2 = Suc (length h)" by (simp add: h2_def)
  have l2_other: "\<And>b. b \<noteq> a \<Longrightarrow> b < length h \<Longrightarrow> lookup h2 b = lookup h b"
    by (simp add: h2_def lookup_update lookup_append_old)
  have l2_a: "lookup h2 a = Some (Route (first\<lparr>r_duplicates := length h\<rparr>))"
    using a_lt by (simp add: h2_def lookup_update)
  have l2_new: "lookup h2 (length h) = Some (Nums ds)"
    using a_lt by (simp add: h2_def lookup_update lookup_append_new)
  have key2: "\<And>x. x \<in> set rs \<Longrightarrow> route_key h2 x = route_key h x"
  proof -
    fix x assume x: "x \<in> set rs"
    show "route_key h2 x = route_key h x"
    proof (cases "x = a")
      case True
      then show ?thesis using l2_a first by (simp add: route_key_def get_route_def)
    next
      case False
      then show ?thesis using l2_other [OF False lt [OF x]] by (simp add: route_key_def get_route_def)
    qed
  qed
  have routes2: "\<forall>x\<in>set rs. get_route h2 x \<noteq> None"
  proof
    fix x assume x: "x \<in> set rs"
    have "route_key h2 x = route_key h x" by (rule key2 [OF x])
    moreover have "get_route h x \<noteq> None" using Cons.prems(3) x by blast
    ultimately show "get_route h2 x \<noteq> None" by (auto simp: route_key_def)
  qed
  from Cons.IH [OF das sub routes2, of "Suc i"] obtain h' where
    run: "forEachRoute h2 rs as (Suc i) = Some h'" and len: "length h2 \<le> length h'"
    and frame: "\<And>b. b < length h2 \<Longrightarrow> b \<notin> set as \<Longrightarrow> lookup h' b = lookup h2 b"
    and keys: "\<And>x. x \<in> set rs \<Longrightarrow> route_key h' x = route_key h2 x"
    and fin: "\<And>k. k < length as \<Longrightarrow> \<exists>r d. get_route h2 (as ! k) = Some r
            \<and> get_route h' (as ! k) = Some (r\<lparr>r_duplicates := d\<rparr>)
            \<and> get_nums h' d = Some [j \<leftarrow> [0..<length rs]. j \<noteq> Suc i + k \<and> route_key h2 (rs ! j) = route_key h2 (as ! k)]"
    by blast
  have c1: "forEachRoute h rs (a # as) i = Some h'" using step run by simp
  have c2: "length h \<le> length h'" using len len2 by simp
  have c3: "\<forall>b. b < length h \<longrightarrow> b \<notin> set (a # as) \<longrightarrow> lookup h' b = lookup h b"
  proof (intro allI impI)
    fix b assume b: "b < length h" "b \<notin> set (a # as)"
    then have "lookup h' b = lookup h2 b" using frame [of b] len2 by simp
    also have "\<dots> = lookup h b" using l2_other [of b] b by simp
    finally show "lookup h' b = lookup h b" .
  qed
  have c4: "\<forall>x\<in>set rs. route_key h' x = route_key h x"
    using keys key2 by simp
  have new_notin: "length h \<notin> set as" using sub lt by fastforce
  have c5: "\<forall>k<length (a # as). \<exists>r d. get_route h ((a # as) ! k) = Some r
            \<and> get_route h' ((a # as) ! k) = Some (r\<lparr>r_duplicates := d\<rparr>)
            \<and> get_nums h' d = Some [j \<leftarrow> [0..<length rs]. j \<noteq> i + k \<and> route_key h (rs ! j) = route_key h ((a # as) ! k)]"
  proof (intro allI impI)
    fix k assume k: "k < length (a # as)"
    show "\<exists>r d. get_route h ((a # as) ! k) = Some r
            \<and> get_route h' ((a # as) ! k) = Some (r\<lparr>r_duplicates := d\<rparr>)
            \<and> get_nums h' d = Some [j \<leftarrow> [0..<length rs]. j \<noteq> i + k \<and> route_key h (rs ! j) = route_key h ((a # as) ! k)]"
    proof (cases k)
      case 0
      have "lookup h' a = lookup h2 a" using frame [of a] a_lt a_as len2 by simp
      then have g1: "get_route h' a = Some (first\<lparr>r_duplicates := length h\<rparr>)"
        using l2_a by (simp add: get_route_def)
      have "lookup h' (length h) = lookup h2 (length h)" using frame [of "length h"] new_notin len2 by simp
      then have g2: "get_nums h' (length h) = Some ds" using l2_new by (simp add: get_nums_def)
      have "route_key h a = Some (r_endpoint first, r_method first)"
        using first by (simp add: route_key_def)
      then show ?thesis using 0 first g1 g2 by (auto simp: ds_def)
    next
      case (Suc k')
      then have k': "k' < length as" using k by simp
      from fin [OF k'] obtain r d where r: "get_route h2 (as ! k') = Some r"
        and r': "get_route h' (as ! k') = Some (r\<lparr>r_duplicates := d\<rparr>)"
        and d: "get_nums h' d = Some [j \<leftarrow> [0..<length rs]. j \<noteq> Suc i + k' \<and> route_key h2 (rs ! j) = route_key h2 (as ! k')]"
        by blast
      have mem: "as ! k' \<in> set as" using k' by simp
      then have ne: "as ! k' \<noteq> a" using a_as by auto
      have "as ! k' < length h" using mem sub lt by blast
      then have r0: "get_route h (as ! k') = Some r"
        using r l2_other [OF ne] by (simp add: get_route_def)
      have "[j \<leftarrow> [0..<length rs]. j \<noteq> Suc i + k' \<and> route_key h2 (rs ! j) = route_key h2 (as ! k')]
          = [j \<leftarrow> [0..<length rs]. j \<noteq> i + k \<and> route_key h (rs ! j) = route_key h (as ! k')]"
        using key2 mem sub Suc by (intro filter_cong) auto
      then show ?thesis using Suc r0 r' d by auto
    qed
  qed
  show ?case using c1 c2 c3 c4 c5 by blast
qed


lemma filterEnvironments_eq:
  "\<forall>a\<in>set as. get_env h a \<noteq> None \<Longrightarrow>
   filterEnvironments h first i as j =
     Some [k \<leftarrow> [j..<j + length as]. k \<noteq> i \<and> env_port h (as ! (k - j)) = Some (e_port first)]"
proof (induction as arbitrary: j)
  case Nil
  then show ?case by simp
next
  case (Cons a as)
  from Cons.prems obtain r where r: "get_env h a = Some r" by auto
  have ih: "filterEnvironments h first i as (Suc j) =
     Some [k \<leftarrow> [Suc j..<Suc j + length as]. k \<noteq> i \<and> env_port h (as ! (k - Suc j)) = Some (e_port first)]"
    using Cons.IH [of "Suc j"] Cons.prems by simp
  have cong: "[k \<leftarrow> [Suc j..<Suc j + length as]. k \<noteq> i \<and> env_port h ((a # as) ! (k - j)) = Some (e_port first)]
      = [k \<leftarrow> [Suc j..<Suc j + length as]. k \<noteq> i \<and> env_port h (as ! (k - Suc j)) = Some (e_port first)]"
  proof (rule filter_cong)
    fix k assume "k \<in> set [Suc j..<Suc j + length as]"
    then have "k - j = Suc (k - Suc j)" by auto
    then show "(k \<noteq> i \<and> env_port h ((a # as) ! (k - j)) = Some (e_port first))
       = (k \<noteq> i \<and> env_port h (as ! (k - Suc j)) = Some (e_port first))"
      by simp
  qed simp
  have upt: "[j..<j + length (a # as)] = j # [Suc j..<Suc j + length as]"
    by (subst upt_conv_Cons) auto
  show ?case
    unfolding upt using cong
    by (simp add: r ih env_port_def)
qed

lemma forEachEnvironment_spec:
  assumes "distinct as" and "set as \<subseteq> set rs" and "\<forall>a\<in>set rs. get_env h a \<noteq> None"
  shows "\<exists>h'. forEachEnvironment h rs as i = Some h' \<and> length h \<le> length h'
     \<and> (\<forall>b. b < length h \<longrightarrow> b \<notin> set as \<longrightarrow> lookup h' b = lookup h b)
     \<and> (\<forall>a\<in>set rs. env_port h' a = env_port h a)
     \<and> (\<forall>k<length as. \<exists>r d. get_env h (as ! k) = Some r
            \<and> get_env h' (as ! k) = Some (r\<lparr>e_duplicates := d\<rparr>)
            \<and> get_nums h' d = Some [j \<leftarrow> [0..<length rs]. j \<noteq> i + k \<and> env_port h (rs ! j) = env_port h (as ! k)])"
  using assms
proof (induction as arbitrary: h i)
  case Nil
  then show ?case by simp
next
  case (Cons a as)
  from Cons.prems have a_rs: "a \<in> set rs" and a_as: "a \<notin> set as" and das: "distinct as"
    and sub: "set as \<subseteq> set rs" by auto
  from Cons.prems a_rs obtain first where first: "get_env h a = Some first" by auto
  then have a_lt: "a < length h" by (rule get_env_lt)
  have lt: "\<And>x. x \<in> set rs \<Longrightarrow> x < length h"
    using Cons.prems(3) get_env_lt by fastforce
  define ds where "ds = [j \<leftarrow> [0..<length rs]. j \<noteq> i \<and> env_port h (rs ! j) = Some (e_port first)]"
  have fr: "filterEnvironments h first i rs 0 = Some ds"
    using filterEnvironments_eq [OF Cons.prems(3), of first i 0] by (simp add: ds_def)
  define h2 where "h2 = (h @ [Nums ds])[a := Env (first\<lparr>e_duplicates := length h\<rparr>)]"
  have step: "forEachEnvironment h rs (a # as) i = forEachEnvironment h2 rs as (Suc i)"
    by (simp add: first fr alloc_def h2_def)
  have len2: "length h2 = Suc (length h)" by (simp add: h2_def)
  have l2_other: "\<And>b. b \<noteq> a \<Longrightarrow> b < length h \<Longrightarrow> lookup h2 b = lookup h b"
    by (simp add: h2_def lookup_update lookup_append_old)
  have l2_a: "lookup h2 a = Some (Env (first\<lparr>e_duplicates := length h\<rparr>))"
    using a_lt by (simp add: h2_def lookup_update)
  have l2_new: "lookup h2 (length h) = Some (Nums ds)"
    using a_lt by (simp add: h2_def lookup_update lookup_append_new)
  have key2: "\<And>x. x \<in> set rs \<Longrightarrow> env_port h2 x = env_port h x"
  proof -
    fix x assume x: "x \<in> set rs"
    show "env_port h2 x = env_port h x"
    proof (cases "x = a")
      case True
      then show ?thesis using l2_a first by (simp add: env_port_def get_env_def)
    next
      case False
      then show ?thesis using l2_other [OF False lt [OF x]] by (simp add: env_port_def get_env_def)
    qed
  qed
  have routes2: "\<forall>x\<in>set rs. get_env h2 x \<noteq> None"
  proof
    fix x assume x: "x \<in> set rs"
    have "env_port h2 x = env_port h x" by (rule key2 [OF x])
    moreover have "get_env h x \<noteq> None" using Cons.prems(3) x by blast
    ultimately show "get_env h2 x \<noteq> None" by (auto simp: env_port_def)
  qed
  from Cons.IH [OF das sub routes2, of "Suc i"] obtain h' where
    run: "forEachEnvironment h2 rs as (Suc i) = Some h'" and len: "length h2 \<le> length h'"
    and frame: "\<And>b. b < length h2 \<Longrightarrow> b \<notin> set as \<Longrightarrow> lookup h' b = lookup h2 b"
    and keys: "\<And>x. x \<in> set rs \<Longrightarrow> env_port h' x = env_port h2 x"
    and fin: "\<And>k. k < length as \<Longrightarrow> \<exists>r d. get_env h2 (as ! k) = Some r
            \<and> get_env h' (as ! k) = Some (r\<lparr>e_duplicates := d\<rparr>)
            \<and> get_nums h' d = Some [j \<leftarrow> [0..<length rs]. j \<noteq> Suc i + k \<and> env_port h2 (rs ! j) = env_port h2 (as ! k)]"
    by blast
  have c1: "forEachEnvironment h rs (a # as) i = Some h'" using step run by simp
  have c2: "length h \<le> length h'" using len len2 by simp
  have c3: "\<forall>b. b < length h \<longrightarrow> b \<notin> set (a # as) \<longrightarrow> lookup h' b = lookup h b"
  proof (intro allI impI)
    fix b assume b: "b < length h" "b \<notin> set (a # as)"
    then have "lookup h' b = lookup h2 b" using frame [of b] len2 by simp
    also have "\<dots> = lookup h b" using l2_other [of b] b by simp
    finally show "lookup h' b = lookup h b" .
  qed
  have c4: "\<forall>x\<in>set rs. env_port h' x = env_port h x"
    using keys key2 by simp
  have new_notin: "length h \<notin> set as" using sub lt by fastforce
  have c5: "\<forall>k<length (a # as). \<exists>r d. get_env h ((a # as) ! k) = Some r
            \<and> get_env h' ((a # as) ! k) = Some (r\<lparr>e_duplicates := d\<rparr>)
            \<and> get_nums h' d = Some [j \<leftarrow> [0..<length rs]. j \<noteq> i + k \<and> env_port h (rs ! j) = env_port h ((a # as) ! k)]"
  proof (intro allI impI)
    fix k assume k: "k < length (a # as)"
    show "\<exists>r d. get_env h ((a # as) ! k) = Some r
            \<and> get_env h' ((a # as) ! k) = Some (r\<lparr>e_duplicates := d\<rparr>)
            \<and> get_nums h' d = Some [j \<leftarrow> [0..<length rs]. j \<noteq> i + k \<and> env_port h (rs ! j) = env_port h ((a # as) ! k)]"
    proof (cases k)
      case 0
      have "lookup h' a = lookup h2 a" using frame [of a] a_lt a_as len2 by simp
      then have g1: "get_env h' a = Some (first\<lparr>e_duplicates := length h\<rparr>)"
        using l2_a by (simp add: get_env_def)
      have "lookup h' (length h) = lookup h2 (length h)" using frame [of "length h"] new_notin len2 by simp
      then have g2: "get_nums h' (length h) = Some ds" using l2_new by (simp add: get_nums_def)
      have "env_port h a = Some (e_port first)"
        using first by (simp add: env_port_def)
      then show ?thesis using 0 first g1 g2 by (auto simp: ds_def)
    next
      case (Suc k')
      then have k': "k' < length as" using k by simp
      from fin [OF k'] obtain r d where r: "get_env h2 (as ! k') = Some r"
        and r': "get_env h' (as ! k') = Some (r\<lparr>e_duplicates := d\<rparr>)"
        and d: "get_nums h' d = Some [j \<leftarrow> [0..<length rs]. j \<noteq> Suc i + k' \<and> env_port h2 (rs ! j) = env_port h2 (as ! k')]"
        by blast
      have mem: "as ! k' \<in> set as" using k' by simp
      then have ne: "as ! k' \<noteq> a" using a_as by auto
      have "as ! k' < length h" using mem sub lt by blast
      then have r0: "get_env h (as ! k') = Some r"
        using r l2_other [OF ne] by (simp add: get_env_def)
      have "[j \<leftarrow> [0..<length rs]. j \<noteq> Suc i + k' \<and> env_port h2 (rs ! j) = env_port h2 (as ! k')]
          = [j \<leftarrow> [0..<length rs]. j \<noteq> i + k \<and> env_port h (rs ! j) = env_port h (as ! k')]"
        using key2 mem sub Suc by (intro filter_cong) auto
      then show ?thesis using Suc r0 r' d by auto
    qed
  qed
  show ?case using c1 c2 c3 c4 c5 by blast
qed


lemma checkRoutesDuplicates_spec:
  assumes env: "get_env h e = Some env" and rs: "get_refs h (e_routes env) = Some rs"
    and dist: "distinct rs" and routes: "\<forall>a\<in>set rs. get_route h a \<noteq> None"
  shows "\<exists>h'. checkRoutesDuplicates h e = Some h' \<and> length h \<le> length h'
     \<and> (\<forall>b<length h. b \<notin> set rs \<longrightarrow> lookup h' b = lookup h b)
     \<and> get_env h' e = Some env \<and> get_refs h' (e_routes env) = Some rs
     \<and> (\<forall>a\<in>set rs. route_key h' a = route_key h a)
     \<and> (\<forall>k<length rs. \<exists>r d. get_route h (rs ! k) = Some r
            \<and> get_route h' (rs ! k) = Some (r\<lparr>r_duplicates := d\<rparr>))
     \<and> (\<forall>k<length rs. routeDuplicates h' (rs ! k) =
            Some [j \<leftarrow> [0..<length rs]. j \<noteq> k \<and> route_key h (rs ! j) = route_key h (rs ! k)])"
proof -
  from forEachRoute_spec [OF dist subset_refl routes, of 0] obtain h' where
    run: "forEachRoute h rs rs 0 = Some h'" and len: "length h \<le> length h'"
    and frame: "\<And>b. b < length h \<Longrightarrow> b \<notin> set rs \<Longrightarrow> lookup h' b = lookup h b"
    and keys: "\<forall>a\<in>set rs. route_key h' a = route_key h a"
    and fin: "\<And>k. k < length rs \<Longrightarrow> \<exists>r d. get_route h (rs ! k) = Some r
            \<and> get_route h' (rs ! k) = Some (r\<lparr>r_duplicates := d\<rparr>)
            \<and> get_nums h' d = Some [j \<leftarrow> [0..<length rs]. j \<noteq> 0 + k \<and> route_key h (rs ! j) = route_key h (rs ! k)]"
    by blast
  have c1: "checkRoutesDuplicates h e = Some h'"
    by (simp add: checkRoutesDuplicates_def env rs run)
  have e_notin: "e \<notin> set rs"
  proof
    assume "e \<in> set rs"
    then obtain r where "get_route h e = Some r" using routes by auto
    then show False using env by (simp add: get_route_lookup get_env_lookup)
  qed
  have a_notin: "e_routes env \<notin> set rs"
  proof
    assume "e_routes env \<in> set rs"
    then obtain r where "get_route h (e_routes env) = Some r" using routes by auto
    then show False using rs by (simp add: get_route_lookup get_refs_lookup)
  qed
  have c4: "get_env h' e = Some env"
    using frame [OF get_env_lt [OF env] e_notin] env by (simp add: get_env_def)
  have c5: "get_refs h' (e_routes env) = Some rs"
    using frame [OF get_refs_lt [OF rs] a_notin] rs by (simp add: get_refs_def)
  have c7: "\<forall>k<length rs. \<exists>r d. get_route h (rs ! k) = Some r
            \<and> get_route h' (rs ! k) = Some (r\<lparr>r_duplicates := d\<rparr>)"
    using fin by blast
  have c8: "\<forall>k<length rs. routeDuplicates h' (rs ! k) =
            Some [j \<leftarrow> [0..<length rs]. j \<noteq> k \<and> route_key h (rs ! j) = route_key h (rs ! k)]"
  proof (intro allI impI)
    fix k assume "k < length rs"
    from fin [OF this] show "routeDuplicates h' (rs ! k) =
            Some [j \<leftarrow> [0..<length rs]. j \<noteq> k \<and> route_key h (rs ! j) = route_key h (rs ! k)]"
      by (auto simp: routeDuplicates_def)
  qed
  show ?thesis using c1 len frame c4 c5 keys c7 c8 by blast
qed

text \<open>
  Claim C2. In an environment whose routes are distinct route objects,
  \<^verbatim>\<open>checkRoutesDuplicates\<close> returns and leaves the routes array, every method and every
  endpoint as they were; the \<^verbatim>\<open>duplicates\<close> of the route at index \<open>i\<close> is the
  ascending list of exactly the indices \<open>j \<noteq> i\<close> whose route has the same endpoint and
  the same method (equality of strings, nothing normalised). No route lists its own
  index, and two routes with equal endpoint and method list each other.
\<close>

theorem checkRoutesDuplicates_exact:
  assumes "get_env h e = Some env" and "get_refs h (e_routes env) = Some rs"
    and "distinct rs" and "\<forall>a\<in>set rs. get_route h a \<noteq> None"
  shows "\<exists>h'. checkRoutesDuplicates h e = Some h'
     \<and> get_refs h' (e_routes env) = Some rs
     \<and> (\<forall>a\<in>set rs. route_key h' a = route_key h a)
     \<and> (\<forall>i<length rs. \<exists>ds. routeDuplicates h' (rs ! i) = Some ds
            \<and> ds = [j \<leftarrow> [0..<length rs]. j \<noteq> i \<and> route_key h' (rs ! j) = route_key h' (rs ! i)]
            \<and> set ds = {j. j < length rs \<and> j \<noteq> i \<and> route_key h' (rs ! j) = route_key h' (rs ! i)}
            \<and> i \<notin> set ds)
     \<and> (\<forall>i<length rs. \<forall>j<length rs. \<forall>di dj. i \<noteq> j
            \<longrightarrow> route_key h' (rs ! i) = route_key h' (rs ! j)
            \<longrightarrow> routeDuplicates h' (rs ! i) = Some di \<longrightarrow> routeDuplicates h' (rs ! j) = Some dj
            \<longrightarrow> j \<in> set di \<and> i \<in> set dj)"
proof -
  from checkRoutesDuplicates_spec [OF assms] obtain h' where
    run: "checkRoutesDuplicates h e = Some h'"
    and arr: "get_refs h' (e_routes env) = Some rs"
    and keys: "\<forall>a\<in>set rs. route_key h' a = route_key h a"
    and dups: "\<And>k. k < length rs \<Longrightarrow> routeDuplicates h' (rs ! k) =
            Some [j \<leftarrow> [0..<length rs]. j \<noteq> k \<and> route_key h (rs ! j) = route_key h (rs ! k)]"
    by blast
  have eq: "\<And>k. k < length rs \<Longrightarrow>
      [j \<leftarrow> [0..<length rs]. j \<noteq> k \<and> route_key h (rs ! j) = route_key h (rs ! k)]
    = [j \<leftarrow> [0..<length rs]. j \<noteq> k \<and> route_key h' (rs ! j) = route_key h' (rs ! k)]"
    using keys by (intro filter_cong) auto
  have dups': "\<And>k. k < length rs \<Longrightarrow> routeDuplicates h' (rs ! k) =
            Some [j \<leftarrow> [0..<length rs]. j \<noteq> k \<and> route_key h' (rs ! j) = route_key h' (rs ! k)]"
    using dups eq by simp
  have p1: "\<forall>i<length rs. \<exists>ds. routeDuplicates h' (rs ! i) = Some ds
            \<and> ds = [j \<leftarrow> [0..<length rs]. j \<noteq> i \<and> route_key h' (rs ! j) = route_key h' (rs ! i)]
            \<and> set ds = {j. j < length rs \<and> j \<noteq> i \<and> route_key h' (rs ! j) = route_key h' (rs ! i)}
            \<and> i \<notin> set ds"
  proof (intro allI impI)
    fix i assume i: "i < length rs"
    have "set [j \<leftarrow> [0..<length rs]. j \<noteq> i \<and> route_key h' (rs ! j) = route_key h' (rs ! i)]
        = {j. j < length rs \<and> j \<noteq> i \<and> route_key h' (rs ! j) = route_key h' (rs ! i)}"
      by auto
    moreover have "i \<notin> set [j \<leftarrow> [0..<length rs]. j \<noteq> i \<and> route_key h' (rs ! j) = route_key h' (rs ! i)]"
      by simp
    ultimately show "\<exists>ds. routeDuplicates h' (rs ! i) = Some ds
            \<and> ds = [j \<leftarrow> [0..<length rs]. j \<noteq> i \<and> route_key h' (rs ! j) = route_key h' (rs ! i)]
            \<and> set ds = {j. j < length rs \<and> j \<noteq> i \<and> route_key h' (rs ! j) = route_key h' (rs ! i)}
            \<and> i \<notin> set ds"
      using dups' [OF i] by blast
  qed
  have p2: "\<forall>i<length rs. \<forall>j<length rs. \<forall>di dj. i \<noteq> j
            \<longrightarrow> route_key h' (rs ! i) = route_key h' (rs ! j)
            \<longrightarrow> routeDuplicates h' (rs ! i) = Some di \<longrightarrow> routeDuplicates h' (rs ! j) = Some dj
            \<longrightarrow> j \<in> set di \<and> i \<in> set dj"
  proof (intro allI impI)
    fix i j di dj
    assume i: "i < length rs" and j: "j < length rs" and ne: "i \<noteq> j"
      and k: "route_key h' (rs ! i) = route_key h' (rs ! j)"
      and di: "routeDuplicates h' (rs ! i) = Some di" and dj: "routeDuplicates h' (rs ! j) = Some dj"
    have "di = [x \<leftarrow> [0..<length rs]. x \<noteq> i \<and> route_key h' (rs ! x) = route_key h' (rs ! i)]"
      using dups' [OF i] di by simp
    moreover have "dj = [x \<leftarrow> [0..<length rs]. x \<noteq> j \<and> route_key h' (rs ! x) = route_key h' (rs ! j)]"
      using dups' [OF j] dj by simp
    ultimately show "j \<in> set di \<and> i \<in> set dj" using i j ne k by simp
  qed
  show ?thesis
    apply (rule exI [of _ h'])
    apply (intro conjI)
    using run arr keys p1 p2 by blast+
qed

lemma exStore_hyps:
  "get_env exStore 12 = Some (exEnv ''e1'' 3000 10 11)"
  "get_refs exStore (e_routes (exEnv ''e1'' 3000 10 11)) = Some [3, 6, 9]"
  "distinct [3, 6, 9 :: nat]"
  "\<forall>a\<in>set [3, 6, 9]. get_route exStore a \<noteq> None"
  by (simp_all add: exStore_def exEnv_def get_env_def get_refs_def get_route_def lookup_def)

theorem checkRoutesDuplicates_exact_witness:
  "\<exists>h'. checkRoutesDuplicates exStore 12 = Some h'
     \<and> routeDuplicates h' 3 = Some [1] \<and> routeDuplicates h' 6 = Some [0] \<and> routeDuplicates h' 9 = Some []"
proof -
  from checkRoutesDuplicates_exact [OF exStore_hyps] obtain h' where
    run: "checkRoutesDuplicates exStore 12 = Some h'"
    and keys: "\<forall>a\<in>set [3, 6, 9]. route_key h' a = route_key exStore a"
    and dups: "\<forall>i<length [3, 6, 9 :: nat]. \<exists>ds. routeDuplicates h' ([3, 6, 9] ! i) = Some ds
            \<and> ds = [j \<leftarrow> [0..<length [3, 6, 9 :: nat]]. j \<noteq> i \<and> route_key h' ([3, 6, 9] ! j) = route_key h' ([3, 6, 9] ! i)]
            \<and> set ds = {j. j < length [3, 6, 9 :: nat] \<and> j \<noteq> i \<and> route_key h' ([3, 6, 9] ! j) = route_key h' ([3, 6, 9] ! i)}
            \<and> i \<notin> set ds"
    by (elim exE conjE) (rule that)
  have k: "route_key h' 3 = Some (''answer'', ''get'')" "route_key h' 6 = Some (''answer'', ''get'')"
    "route_key h' 9 = Some (''answer'', ''post'')"
    using keys by (simp_all add: route_key_def exStore_def exRoute_def get_route_def lookup_def)
  have u: "[0..<length [3, 6, 9 :: nat]] = [0, Suc 0, Suc (Suc 0)]" by (simp add: upt_rec)
  from dups [rule_format, of 0] have "routeDuplicates h' 3 = Some [1]" unfolding u using k by simp
  moreover from dups [rule_format, of 1] have  "routeDuplicates h' 6 = Some [0]" unfolding u using k by simp
  moreover from dups [rule_format, of 2] have "routeDuplicates h' 9 = Some []" unfolding u using k by simp
  ultimately show ?thesis using run by blast
qed

lemma checkEnvironmentsDuplicates_spec:
  assumes es: "get_refs (store s) (environments s) = Some es"
    and dist: "distinct es" and envs: "\<forall>a\<in>set es. get_env (store s) a \<noteq> None"
  shows "\<exists>h'. checkEnvironmentsDuplicates s = Some (s\<lparr>store := h'\<rparr>) \<and> length (store s) \<le> length h'
     \<and> (\<forall>b<length (store s). b \<notin> set es \<longrightarrow> lookup h' b = lookup (store s) b)
     \<and> get_refs h' (environments s) = Some es
     \<and> (\<forall>a\<in>set es. env_port h' a = env_port (store s) a)
     \<and> (\<forall>k<length es. \<exists>e d. get_env (store s) (es ! k) = Some e
            \<and> get_env h' (es ! k) = Some (e\<lparr>e_duplicates := d\<rparr>))
     \<and> (\<forall>k<length es. environmentDuplicates h' (es ! k) =
            Some [j \<leftarrow> [0..<length es]. j \<noteq> k \<and> env_port (store s) (es ! j) = env_port (store s) (es ! k)])"
proof -
  from forEachEnvironment_spec [OF dist subset_refl envs, of 0] obtain h' where
    run: "forEachEnvironment (store s) es es 0 = Some h'" and len: "length (store s) \<le> length h'"
    and frame: "\<And>b. b < length (store s) \<Longrightarrow> b \<notin> set es \<Longrightarrow> lookup h' b = lookup (store s) b"
    and keys: "\<forall>a\<in>set es. env_port h' a = env_port (store s) a"
    and fin: "\<And>k. k < length es \<Longrightarrow> \<exists>e d. get_env (store s) (es ! k) = Some e
            \<and> get_env h' (es ! k) = Some (e\<lparr>e_duplicates := d\<rparr>)
            \<and> get_nums h' d = Some [j \<leftarrow> [0..<length es]. j \<noteq> 0 + k \<and> env_port (store s) (es ! j) = env_port (store s) (es ! k)]"
    by blast
  have c1: "checkEnvironmentsDuplicates s = Some (s\<lparr>store := h'\<rparr>)"
    by (simp add: checkEnvironmentsDuplicates_def es run)
  have a_notin: "environments s \<notin> set es"
  proof
    assume "environments s \<in> set es"
    then obtain e where "get_env (store s) (environments s) = Some e" using envs by auto
    then show False using es by (simp add: get_env_lookup get_refs_lookup)
  qed
  have c5: "get_refs h' (environments s) = Some es"
    using frame [OF get_refs_lt [OF es] a_notin] es by (simp add: get_refs_def)
  have c7: "\<forall>k<length es. \<exists>e d. get_env (store s) (es ! k) = Some e
            \<and> get_env h' (es ! k) = Some (e\<lparr>e_duplicates := d\<rparr>)"
    using fin by blast
  have c8: "\<forall>k<length es. environmentDuplicates h' (es ! k) =
            Some [j \<leftarrow> [0..<length es]. j \<noteq> k \<and> env_port (store s) (es ! j) = env_port (store s) (es ! k)]"
  proof (intro allI impI)
    fix k assume "k < length es"
    from fin [OF this] show "environmentDuplicates h' (es ! k) =
            Some [j \<leftarrow> [0..<length es]. j \<noteq> k \<and> env_port (store s) (es ! j) = env_port (store s) (es ! k)]"
      by (auto simp: environmentDuplicates_def)
  qed
  show ?thesis
    apply (rule exI [of _ h'])
    apply (intro conjI)
    using c1 len frame c5 keys c7 c8 by blast+
qed

lemma routes_twice:
  assumes env: "get_env h e = Some env" and rs: "get_refs h (e_routes env) = Some rs"
    and dist: "distinct rs" and routes: "\<forall>a\<in>set rs. get_route h a \<noteq> None"
  shows "\<exists>h1 h2. checkRoutesDuplicates h e = Some h1 \<and> checkRoutesDuplicates h1 e = Some h2
     \<and> (\<forall>a\<in>set rs. routeDuplicates h1 a \<noteq> None \<and> routeDuplicates h2 a = routeDuplicates h1 a)
     \<and> (\<forall>b<length h1. b \<notin> set rs \<longrightarrow> lookup h2 b = lookup h1 b)"
proof -
  from checkRoutesDuplicates_spec [OF assms] obtain h1 where
    run1: "checkRoutesDuplicates h e = Some h1"
    and env1: "get_env h1 e = Some env" and rs1: "get_refs h1 (e_routes env) = Some rs"
    and keys1: "\<forall>a\<in>set rs. route_key h1 a = route_key h a"
    and cells1: "\<forall>k<length rs. \<exists>r d. get_route h (rs ! k) = Some r
            \<and> get_route h1 (rs ! k) = Some (r\<lparr>r_duplicates := d\<rparr>)"
    and dups1: "\<forall>k<length rs. routeDuplicates h1 (rs ! k) =
            Some [j \<leftarrow> [0..<length rs]. j \<noteq> k \<and> route_key h (rs ! j) = route_key h (rs ! k)]"
    by (elim exE conjE) (rule that)
  have routes1: "\<forall>a\<in>set rs. get_route h1 a \<noteq> None"
  proof
    fix a assume "a \<in> set rs"
    then obtain k where "k < length rs" "a = rs ! k" by (auto simp: in_set_conv_nth)
    then show "get_route h1 a \<noteq> None" using cells1 by auto
  qed
  from checkRoutesDuplicates_spec [OF env1 rs1 dist routes1] obtain h2 where
    run2: "checkRoutesDuplicates h1 e = Some h2"
    and frame2: "\<forall>b<length h1. b \<notin> set rs \<longrightarrow> lookup h2 b = lookup h1 b"
    and dups2: "\<forall>k<length rs. routeDuplicates h2 (rs ! k) =
            Some [j \<leftarrow> [0..<length rs]. j \<noteq> k \<and> route_key h1 (rs ! j) = route_key h1 (rs ! k)]"
    by (elim exE conjE) (rule that)
  have same: "\<forall>a\<in>set rs. routeDuplicates h1 a \<noteq> None \<and> routeDuplicates h2 a = routeDuplicates h1 a"
  proof
    fix a assume "a \<in> set rs"
    then obtain k where k: "k < length rs" "a = rs ! k" by (auto simp: in_set_conv_nth)
    have "[j \<leftarrow> [0..<length rs]. j \<noteq> k \<and> route_key h1 (rs ! j) = route_key h1 (rs ! k)]
        = [j \<leftarrow> [0..<length rs]. j \<noteq> k \<and> route_key h (rs ! j) = route_key h (rs ! k)]"
      using keys1 k by (intro filter_cong) auto
    then show "routeDuplicates h1 a \<noteq> None \<and> routeDuplicates h2 a = routeDuplicates h1 a"
      using dups1 dups2 k by simp
  qed
  show ?thesis using run1 run2 same frame2 by blast
qed

lemma environments_twice:
  assumes es: "get_refs (store s) (environments s) = Some es"
    and dist: "distinct es" and envs: "\<forall>a\<in>set es. get_env (store s) a \<noteq> None"
  shows "\<exists>s1 s2. checkEnvironmentsDuplicates s = Some s1 \<and> checkEnvironmentsDuplicates s1 = Some s2
     \<and> (\<forall>a\<in>set es. environmentDuplicates (store s1) a \<noteq> None
           \<and> environmentDuplicates (store s2) a = environmentDuplicates (store s1) a)
     \<and> (\<forall>b<length (store s1). b \<notin> set es \<longrightarrow> lookup (store s2) b = lookup (store s1) b)"
proof -
  from checkEnvironmentsDuplicates_spec [OF assms] obtain h1 where
    run1: "checkEnvironmentsDuplicates s = Some (s\<lparr>store := h1\<rparr>)"
    and es1: "get_refs h1 (environments s) = Some es"
    and keys1: "\<forall>a\<in>set es. env_port h1 a = env_port (store s) a"
    and cells1: "\<forall>k<length es. \<exists>e d. get_env (store s) (es ! k) = Some e
            \<and> get_env h1 (es ! k) = Some (e\<lparr>e_duplicates := d\<rparr>)"
    and dups1: "\<forall>k<length es. environmentDuplicates h1 (es ! k) =
            Some [j \<leftarrow> [0..<length es]. j \<noteq> k \<and> env_port (store s) (es ! j) = env_port (store s) (es ! k)]"
    by (elim exE conjE) (rule that)
  define s1 where "s1 = s\<lparr>store := h1\<rparr>"
  have st1: "store s1 = h1" "environments s1 = environments s" by (simp_all add: s1_def)
  have envs1: "\<forall>a\<in>set es. get_env (store s1) a \<noteq> None"
  proof
    fix a assume "a \<in> set es"
    then obtain k where "k < length es" "a = es ! k" by (auto simp: in_set_conv_nth)
    then show "get_env (store s1) a \<noteq> None" using cells1 st1 by auto
  qed
  have es1': "get_refs (store s1) (environments s1) = Some es" using es1 st1 by simp
  from checkEnvironmentsDuplicates_spec [OF es1' dist envs1] obtain h2 where
    run2: "checkEnvironmentsDuplicates s1 = Some (s1\<lparr>store := h2\<rparr>)"
    and frame2: "\<forall>b<length (store s1). b \<notin> set es \<longrightarrow> lookup h2 b = lookup (store s1) b"
    and dups2: "\<forall>k<length es. environmentDuplicates h2 (es ! k) =
            Some [j \<leftarrow> [0..<length es]. j \<noteq> k \<and> env_port (store s1) (es ! j) = env_port (store s1) (es ! k)]"
    by (elim exE conjE) (rule that)
  have same: "\<forall>a\<in>set es. environmentDuplicates (store s1) a \<noteq> None
           \<and> environmentDuplicates (store (s1\<lparr>store := h2\<rparr>)) a = environmentDuplicates (store s1) a"
  proof
    fix a assume "a \<in> set es"
    then obtain k where k: "k < length es" "a = es ! k" by (auto simp: in_set_conv_nth)
    have "[j \<leftarrow> [0..<length es]. j \<noteq> k \<and> env_port (store s1) (es ! j) = env_port (store s1) (es ! k)]
        = [j \<leftarrow> [0..<length es]. j \<noteq> k \<and> env_port (store s) (es ! j) = env_port (store s) (es ! k)]"
      using keys1 k st1 by (intro filter_cong) auto
    then show "environmentDuplicates (store s1) a \<noteq> None
           \<and> environmentDuplicates (store (s1\<lparr>store := h2\<rparr>)) a = environmentDuplicates (store s1) a"
      using dups1 dups2 k st1 by simp
  qed
  have frame2': "\<forall>b<length (store s1). b \<notin> set es
      \<longrightarrow> lookup (store (s1\<lparr>store := h2\<rparr>)) b = lookup (store s1) b"
    using frame2 by simp
  show ?thesis using run1 run2 same frame2' unfolding s1_def by blast
qed

text \<open>
  Claim C9. Running \<^verbatim>\<open>checkRoutesDuplicates\<close> on an environment twice in a row, or
  \<^verbatim>\<open>checkEnvironmentsDuplicates\<close> on the collection twice in a row, gives after the second
  run the same contents in every \<^verbatim>\<open>duplicates\<close> array as after the first, and the
  second run changes no other object of the store.
\<close>

theorem duplicate_passes_idempotent:
  assumes "get_env h e = Some env" and "get_refs h (e_routes env) = Some rs"
    and "distinct rs" and "\<forall>a\<in>set rs. get_route h a \<noteq> None"
    and "get_refs (store s) (environments s) = Some es"
    and "distinct es" and "\<forall>a\<in>set es. get_env (store s) a \<noteq> None"
  shows "(\<exists>h1 h2. checkRoutesDuplicates h e = Some h1 \<and> checkRoutesDuplicates h1 e = Some h2
            \<and> (\<forall>a\<in>set rs. routeDuplicates h1 a \<noteq> None \<and> routeDuplicates h2 a = routeDuplicates h1 a)
            \<and> (\<forall>b<length h1. b \<notin> set rs \<longrightarrow> lookup h2 b = lookup h1 b))
       \<and> (\<exists>s1 s2. checkEnvironmentsDuplicates s = Some s1 \<and> checkEnvironmentsDuplicates s1 = Some s2
            \<and> (\<forall>a\<in>set es. environmentDuplicates (store s1) a \<noteq> None
                 \<and> environmentDuplicates (store s2) a = environmentDuplicates (store s1) a)
            \<and> (\<forall>b<length (store s1). b \<notin> set es \<longrightarrow> lookup (store s2) b = lookup (store s1) b))"
  using routes_twice [OF assms(1-4)] environments_twice [OF assms(5-7)] by (rule conjI)

lemma exService_hyps:
  "get_refs (store exService) (environments exService) = Some [12, 15]"
  "distinct [12, 15 :: nat]"
  "\<forall>a\<in>set [12, 15]. get_env (store exService) a \<noteq> None"
  by (simp_all add: exService_def exStore_def get_env_def get_refs_def lookup_def)

theorem duplicate_passes_idempotent_witness:
  "(\<exists>h1 h2. checkRoutesDuplicates exStore 12 = Some h1 \<and> checkRoutesDuplicates h1 12 = Some h2
            \<and> (\<forall>a\<in>set [3, 6, 9]. routeDuplicates h1 a \<noteq> None \<and> routeDuplicates h2 a = routeDuplicates h1 a)
            \<and> (\<forall>b<length h1. b \<notin> set [3, 6, 9] \<longrightarrow> lookup h2 b = lookup h1 b))
       \<and> (\<exists>s1 s2. checkEnvironmentsDuplicates exService = Some s1 \<and> checkEnvironmentsDuplicates s1 = Some s2
            \<and> (\<forall>a\<in>set [12, 15]. environmentDuplicates (store s1) a \<noteq> None
                 \<and> environmentDuplicates (store s2) a = environmentDuplicates (store s1) a)
            \<and> (\<forall>b<length (store s1). b \<notin> set [12, 15] \<longrightarrow> lookup (store s2) b = lookup (store s1) b))"
  by (rule duplicate_passes_idempotent [OF exStore_hyps exService_hyps])

section \<open>Removing a route\<close>

lemma splice1_in_range:
  "0 \<le> i \<Longrightarrow> i < int (length xs) \<Longrightarrow> splice1 xs i = take (nat i) xs @ drop (Suc (nat i)) xs"
  by (simp add: splice1_def Let_def min_def)

lemma distinct_remove_nth: "distinct xs \<Longrightarrow> distinct (take n xs @ drop (Suc n) xs)"
proof -
  assume d: "distinct xs"
  have "distinct (take n xs @ drop n xs)" using d by simp
  then have "distinct (take n xs)" "distinct (drop n xs)" "set (take n xs) \<inter> set (drop n xs) = {}"
    by (simp_all only: distinct_append)
  moreover have "set (drop (Suc n) xs) \<subseteq> set (drop n xs)" by (rule set_drop_subset_set_drop) simp
  moreover have "distinct (drop (Suc n) xs)" using d by simp
  ultimately show ?thesis by (auto simp only: distinct_append)
qed

lemma set_remove_nth_subset: "set (take n xs @ drop (Suc n) xs) \<subseteq> set xs"
  by (auto dest: in_set_takeD in_set_dropD)

text \<open>
  Claim C6. For an index inside the routes array, \<^verbatim>\<open>removeRoute\<close> returns with the
  routes array equal to the old one without the element at that index. In the store it
  leaves, which is also the store recorded with the emitted event (the event is the last
  thing the operation does), the \<^verbatim>\<open>duplicates\<close> of every remaining route lists exactly
  the other remaining routes of equal endpoint and method, by their indices in the new
  array. The instance below removes one of three mutually duplicate routes: the two that
  remain are at indices 0 and 1 and list each other.
\<close>

theorem removeRoute_recomputes:
  assumes env: "get_env (store s) e = Some env"
    and rs: "get_refs (store s) (e_routes env) = Some rs"
    and dist: "distinct rs" and routes: "\<forall>a\<in>set rs. get_route (store s) a \<noteq> None"
    and i0: "0 \<le> i" and i1: "i < int (length rs)"
  shows "\<exists>s' rs'. removeRoute e i cb s = Some s'
     \<and> rs' = take (nat i) rs @ drop (Suc (nat i)) rs
     \<and> get_env (store s') e = Some env
     \<and> get_refs (store s') (e_routes env) = Some rs'
     \<and> (\<forall>a\<in>set rs'. route_key (store s') a = route_key (store s) a)
     \<and> (\<forall>k<length rs'. routeDuplicates (store s') (rs' ! k) =
            Some [j \<leftarrow> [0..<length rs']. j \<noteq> k \<and> route_key (store s') (rs' ! j) = route_key (store s') (rs' ! k)])
     \<and> environmentUpdateEvents s' = environmentUpdateEvents s @
            [\<lparr>ev_environment = Ref e, ev_callback = cb, ev_store = store s'\<rparr>]
     \<and> routesTotal s' = routesTotal s - 1"
proof -
  define rs' where "rs' = take (nat i) rs @ drop (Suc (nat i)) rs"
  define h1 where "h1 = (store s)[e_routes env := Refs rs']"
  define s1 where "s1 = s\<lparr>store := h1, routesTotal := routesTotal s - 1\<rparr>"
  have sp: "splice1 rs i = rs'" using splice1_in_range [OF i0 i1] by (simp add: rs'_def)
  have sub: "set rs' \<subseteq> set rs" unfolding rs'_def by (rule set_remove_nth_subset)
  have dist': "distinct rs'" unfolding rs'_def using dist by (rule distinct_remove_nth)
  have arr_lt: "e_routes env < length (store s)" using rs by (rule get_refs_lt)
  have arr_ne: "\<And>a r. get_route (store s) a = Some r \<Longrightarrow> a \<noteq> e_routes env"
    using rs by (auto simp: get_route_lookup get_refs_lookup)
  have e_ne: "e \<noteq> e_routes env" using env rs by (auto simp: get_env_lookup get_refs_lookup)
  have env1: "get_env h1 e = Some env"
    using env e_ne by (simp add: h1_def get_env_def lookup_update)
  have rs1: "get_refs h1 (e_routes env) = Some rs'"
    using arr_lt by (simp add: h1_def get_refs_def lookup_update)
  have route1: "\<And>a. a \<in> set rs \<Longrightarrow> get_route h1 a = get_route (store s) a"
  proof -
    fix a assume "a \<in> set rs"
    then obtain r where "get_route (store s) a = Some r" using routes by auto
    from arr_ne [OF this] show "get_route h1 a = get_route (store s) a"
      by (simp add: h1_def get_route_def lookup_update)
  qed
  have routes1: "\<forall>a\<in>set rs'. get_route h1 a \<noteq> None"
    using sub route1 routes by auto
  have key1: "\<And>a. a \<in> set rs' \<Longrightarrow> route_key h1 a = route_key (store s) a"
    using sub route1 by (auto simp: route_key_def)
  from checkRoutesDuplicates_spec [OF env1 rs1 dist' routes1] obtain h' where
    run: "checkRoutesDuplicates h1 e = Some h'"
    and env': "get_env h' e = Some env" and arr': "get_refs h' (e_routes env) = Some rs'"
    and keys: "\<forall>a\<in>set rs'. route_key h' a = route_key h1 a"
    and dups: "\<forall>k<length rs'. routeDuplicates h' (rs' ! k) =
            Some [j \<leftarrow> [0..<length rs']. j \<noteq> k \<and> route_key h1 (rs' ! j) = route_key h1 (rs' ! k)]"
    by (elim exE conjE) (rule that)
  define s' where "s' = next_event (Ref e) cb (s1\<lparr>store := h'\<rparr>)"
  have st: "store s' = h'" by (simp add: s'_def next_event_def)
  have c1: "removeRoute e i cb s = Some s'"
    using run by (simp add: removeRoute_def env rs sp Let_def h1_def [symmetric] s1_def s'_def)
  have c5: "\<forall>a\<in>set rs'. route_key (store s') a = route_key (store s) a"
    using keys key1 st by simp
  have c6: "\<forall>k<length rs'. routeDuplicates (store s') (rs' ! k) =
            Some [j \<leftarrow> [0..<length rs']. j \<noteq> k \<and> route_key (store s') (rs' ! j) = route_key (store s') (rs' ! k)]"
  proof (intro allI impI)
    fix k assume k: "k < length rs'"
    have "[j \<leftarrow> [0..<length rs']. j \<noteq> k \<and> route_key h1 (rs' ! j) = route_key h1 (rs' ! k)]
        = [j \<leftarrow> [0..<length rs']. j \<noteq> k \<and> route_key h' (rs' ! j) = route_key h' (rs' ! k)]"
      using keys k by (intro filter_cong) auto
    then show "routeDuplicates (store s') (rs' ! k) =
            Some [j \<leftarrow> [0..<length rs']. j \<noteq> k \<and> route_key (store s') (rs' ! j) = route_key (store s') (rs' ! k)]"
      using dups k st by simp
  qed
  have c7: "environmentUpdateEvents s' = environmentUpdateEvents s @
            [\<lparr>ev_environment = Ref e, ev_callback = cb, ev_store = store s'\<rparr>]"
    by (simp add: s'_def next_event_def s1_def)
  have c8: "routesTotal s' = routesTotal s - 1"
    by (simp add: s'_def next_event_def s1_def)
  show ?thesis
    apply (rule exI [of _ s'])
    apply (rule exI [of _ rs'])
    apply (intro conjI)
    using c1 rs'_def env' arr' c5 c6 c7 c8 st by simp_all
qed

lemma tripleService_hyps:
  "get_env (store tripleService) 12 = Some (exEnv ''e1'' 3000 10 11)"
  "get_refs (store tripleService) (e_routes (exEnv ''e1'' 3000 10 11)) = Some [3, 6, 9]"
  "distinct [3, 6, 9 :: nat]"
  "\<forall>a\<in>set [3, 6, 9]. get_route (store tripleService) a \<noteq> None"
  "(0::int) \<le> 1" "(1::int) < int (length [3, 6, 9 :: nat])"
  by (simp_all add: tripleService_def exService_def exStore_def exEnv_def get_env_def get_refs_def get_route_def lookup_def)

theorem removeRoute_recomputes_witness:
  "\<exists>s'. removeRoute 12 1 None tripleService = Some s'
     \<and> get_refs (store s') 10 = Some [3, 9]
     \<and> routeDuplicates (store s') 3 = Some [1] \<and> routeDuplicates (store s') 9 = Some [0]
     \<and> routesTotal s' = 2"
proof -
  from removeRoute_recomputes [OF tripleService_hyps, of None] obtain s' rs' where
    run: "removeRoute 12 1 None tripleService = Some s'"
    and rs': "rs' = take (nat 1) [3, 6, 9] @ drop (Suc (nat 1)) [3, 6, 9]"
    and env: "get_env (store s') 12 = Some (exEnv ''e1'' 3000 10 11)"
    and arr: "get_refs (store s') (e_routes (exEnv ''e1'' 3000 10 11)) = Some rs'"
    and keys: "\<forall>a\<in>set rs'. route_key (store s') a = route_key (store tripleService) a"
    and dups: "\<forall>k<length rs'. routeDuplicates (store s') (rs' ! k) =
            Some [j \<leftarrow> [0..<length rs']. j \<noteq> k \<and> route_key (store s') (rs' ! j) = route_key (store s') (rs' ! k)]"
    and ev: "environmentUpdateEvents s' = environmentUpdateEvents tripleService @
            [\<lparr>ev_environment = Ref 12, ev_callback = None, ev_store = store s'\<rparr>]"
    and total: "routesTotal s' = routesTotal tripleService - 1"
    by (elim exE conjE) (rule that)
  have r: "rs' = [3, 9]" using rs' by simp
  have k: "route_key (store s') 3 = Some (''answer'', ''get'')" "route_key (store s') 9 = Some (''answer'', ''get'')"
    using keys unfolding r
    by (simp_all add: route_key_def tripleService_def exService_def exStore_def exRoute_def get_route_def lookup_def)
  have u: "[0..<length [3, 9 :: nat]] = [0, Suc 0]" by (simp add: upt_rec)
  from dups [unfolded r, rule_format, of 0] have d0: "routeDuplicates (store s') 3 = Some [1]"
    unfolding u using k by simp
  from dups [unfolded r, rule_format, of 1] have d1: "routeDuplicates (store s') 9 = Some [0]"
    unfolding u using k by simp
  have a: "get_refs (store s') 10 = Some [3, 9]" using arr r by (simp add: exEnv_def)
  have t: "routesTotal s' = 2" using total by (simp add: tripleService_def exService_def)
  show ?thesis using run a d0 d1 t by blast
qed

section \<open>Import\<close>

text \<open>
  Claim C1. When a file was chosen and read, and the checksum test on the parsed document
  fails, \<^verbatim>\<open>importEnvironmentsFile\<close> returns after one alert, the error
  \<^verbatim>\<open>IMPORT_WRONG_CHECKSUM\<close>, and the alert is the only change of the state: the store
  (hence every environment, route and header, and every \<^verbatim>\<open>duplicates\<close> array), the
  collection, the count of generated uuids, \<^verbatim>\<open>routesTotal\<close> and the emitted events are
  what they were. No migration runs, whatever the list of migrations is.
\<close>

theorem import_wrong_checksum_aborts:
  assumes "\<not> verifyImportChecksum (store s) importData" and "path \<noteq> []"
  shows "\<exists>s'. importEnvironmentsFile verifyImportChecksum Migrations (Some (path # paths)) (Document importData) s = Some s'
     \<and> alerts s' = alerts s @ [(''error'', IMPORT_WRONG_CHECKSUM)]
     \<and> s' = s\<lparr>alerts := alerts s'\<rparr>
     \<and> store s' = store s \<and> environments s' = environments s \<and> uuidCalls s' = uuidCalls s
     \<and> routesTotal s' = routesTotal s \<and> environmentUpdateEvents s' = environmentUpdateEvents s"
  using assms by (simp add: importEnvironmentsFile_def showAlert_def)

lemma tamperedService_rejected: "\<not> exVerify (store tamperedService) 32"
  by (simp add: tamperedService_def importService_def exService_def exStore_def exVerify_def
        get_export_def lookup_def)

theorem import_wrong_checksum_aborts_witness:
  "\<exists>s'. importEnvironmentsFile exVerify [exMigration] (Some [''envs.json'']) (Document 32) tamperedService = Some s'
     \<and> alerts s' = alerts tamperedService @ [(''error'', IMPORT_WRONG_CHECKSUM)]
     \<and> s' = tamperedService\<lparr>alerts := alerts s'\<rparr>
     \<and> store s' = store tamperedService \<and> environments s' = environments tamperedService
     \<and> uuidCalls s' = uuidCalls tamperedService
     \<and> routesTotal s' = routesTotal tamperedService
     \<and> environmentUpdateEvents s' = environmentUpdateEvents tamperedService"
  by (rule import_wrong_checksum_aborts [where verifyImportChecksum = exVerify, OF tamperedService_rejected]) simp

section \<open>cloneDeep\<close>

lemma keeps_refl: "keeps h h" by (simp add: keeps_def)

lemma keeps_trans: "keeps h1 h2 \<Longrightarrow> keeps h2 h3 \<Longrightarrow> keeps h1 h3"
  by (auto simp: keeps_def)

lemma keeps_append: "keeps h (h @ xs)"
  by (simp add: keeps_def lookup_append_old)

lemma keeps_update: "length h \<le> a \<Longrightarrow> keeps h h' \<Longrightarrow> keeps h (h'[a := c])"
  by (auto simp: keeps_def lookup_update)

lemma keeps_lookup: "keeps h h' \<Longrightarrow> lookup h z = Some c \<Longrightarrow> lookup h' z = Some c"
  by (auto simp: keeps_def dest: lookup_Some_lt)

lemma slot_refs_map_slot: "slot_refs (map_slot f x) = map f (slot_refs x)"
  by (cases x) simp_all

lemma refs_of_map_refs: "refs_of (map_refs f c) = map f (refs_of c)"
  by (cases c) (simp_all add: slot_refs_map_slot)

lemma map_slot_comp: "map_slot f (map_slot g x) = map_slot (f \<circ> g) x"
  by (cases x) simp_all

lemma map_refs_comp: "map_refs f (map_refs g c) = map_refs (f \<circ> g) c"
  by (cases c) (simp_all add: map_slot_comp)

lemma map_refs_const: "map_refs (\<lambda>_. 0) (map_refs g c) = map_refs (\<lambda>_. 0) c"
  by (simp add: map_refs_comp comp_def)

lemma copy_of_keeps:
  "copy_of h0 h x y \<Longrightarrow> keeps h h2 \<Longrightarrow> copy_of h0 h2 x y"
proof (induction rule: copy_of.induct)
  case (copy_ofI a c a' c')
  have "list_all2 (copy_of h0 h2) (refs_of c) (refs_of c')"
    using copy_ofI.IH copy_ofI.prems by (auto elim: list_all2_mono)
  moreover have "lookup h2 a' = Some c'" using copy_ofI.hyps(2) copy_ofI.prems by (rule keeps_lookup [rotated])
  ultimately show ?case using copy_ofI.hyps by (intro copy_of.intros)
qed

lemma memo_ok_keeps: "memo_ok h0 h m \<Longrightarrow> keeps h h2 \<Longrightarrow> memo_ok h0 h2 m"
  by (auto simp: memo_ok_def intro: copy_of_keeps)

lemma copy_of_valid: "copy_of h0 h x y \<Longrightarrow> y < length h"
  by (erule copy_of.cases) (auto dest: lookup_Some_lt)

lemma baseClone_ext:
  "baseClone n h m a = Some (a', h', m') \<Longrightarrow> \<exists>xs. h' = h @ xs"
  "cloneAll n h m bs = Some (h', m') \<Longrightarrow> \<exists>xs. h' = h @ xs"
proof (induction n h m a and n h m bs arbitrary: a' h' m' and h' m' rule: baseClone_cloneAll.induct)
  case (1 h m a)
  then show ?case by simp
next
  case (2 n h m a)
  show ?case
  proof (cases "map_of m a")
    case (Some y)
    then show ?thesis using "2.prems" by simp
  next
    case None
    from "2.prems" None obtain c h1 m1 where c: "lookup h a = Some c"
      and all: "cloneAll n h m (refs_of c) = Some (h1, m1)"
      and h': "h' = h1 @ [map_refs (redirect m1) c]"
      by (auto simp: alloc_def split: bind_splits)
    from "2.IH" [OF None c all] obtain xs where "h1 = h @ xs" by blast
    then show ?thesis using h' by simp
  qed
next
  case (3 n h m)
  then show ?case by simp
next
  case (4 n h m b bs)
  from "4.prems" obtain b' h1 m1 where b: "baseClone n h m b = Some (b', h1, m1)"
    and rest: "cloneAll n h1 m1 bs = Some (h', m')"
    by (auto split: bind_splits)
  from "4.IH"(1) [OF b] obtain xs where x: "h1 = h @ xs" by blast
  from "4.IH"(2) [OF b refl refl rest] obtain ys where "h' = h1 @ ys" by auto
  then show ?case using x by simp
qed

lemma fresh_closed_alloc:
  assumes "fresh_closed n h" and "\<forall>d\<in>set (refs_of c). n \<le> d"
  shows "fresh_closed n (h @ [c])"
  unfolding fresh_closed_def
proof (intro allI impI)
  fix b c' assume b: "n \<le> b" and l: "lookup (h @ [c]) b = Some c'"
  show "\<forall>d\<in>set (refs_of c'). n \<le> d"
  proof (cases "b < length h")
    case True
    then have "lookup h b = Some c'" using l by (simp add: lookup_append_old)
    then show ?thesis using assms(1) b by (auto simp: fresh_closed_def)
  next
    case False
    then have "b = length h" using l by (auto dest: lookup_Some_lt)
    then have "c' = c" using l by (simp add: lookup_append_new)
    then show ?thesis using assms(2) by simp
  qed
qed

lemma cloneAll_step:
  assumes P: "\<And>h m a. shallow n h0 a \<Longrightarrow> keeps h0 h \<Longrightarrow> memo_ok h0 h m \<Longrightarrow> fresh_closed (length h0) h \<Longrightarrow>
       \<exists>a' h' m'. baseClone n h m a = Some (a', h', m') \<and> keeps h h' \<and> memo_ok h0 h' m'
          \<and> fresh_closed (length h0) h' \<and> map_of m' a = Some a'
          \<and> (\<forall>x. map_of m x \<noteq> None \<longrightarrow> map_of m' x \<noteq> None)"
  shows "\<forall>b\<in>set bs. shallow n h0 b \<Longrightarrow> keeps h0 h \<Longrightarrow> memo_ok h0 h m \<Longrightarrow> fresh_closed (length h0) h \<Longrightarrow>
       \<exists>h' m'. cloneAll n h m bs = Some (h', m') \<and> keeps h h' \<and> memo_ok h0 h' m'
          \<and> fresh_closed (length h0) h' \<and> (\<forall>b\<in>set bs. map_of m' b \<noteq> None)
          \<and> (\<forall>x. map_of m x \<noteq> None \<longrightarrow> map_of m' x \<noteq> None)"
proof (induction bs arbitrary: h m)
  case Nil
  then show ?case by (simp add: keeps_refl)
next
  case (Cons b bs)
  from Cons.prems(1) have sb: "shallow n h0 b" and sbs: "\<forall>b\<in>set bs. shallow n h0 b" by simp_all
  from P [OF sb Cons.prems(2,3,4)] obtain b' h1 m1 where
    b: "baseClone n h m b = Some (b', h1, m1)" and k1: "keeps h h1" and mo1: "memo_ok h0 h1 m1"
    and fc1: "fresh_closed (length h0) h1" and mb: "map_of m1 b = Some b'"
    and dom1: "\<forall>x. map_of m x \<noteq> None \<longrightarrow> map_of m1 x \<noteq> None"
    by (elim exE conjE) (rule that)
  have k01: "keeps h0 h1" using Cons.prems(2) k1 by (rule keeps_trans)
  from Cons.IH [OF sbs k01 mo1 fc1] obtain h' m' where
    rest: "cloneAll n h1 m1 bs = Some (h', m')" and k2: "keeps h1 h'" and mo2: "memo_ok h0 h' m'"
    and fc2: "fresh_closed (length h0) h'" and mbs: "\<forall>b\<in>set bs. map_of m' b \<noteq> None"
    and dom2: "\<forall>x. map_of m1 x \<noteq> None \<longrightarrow> map_of m' x \<noteq> None"
    by (elim exE conjE) (rule that)
  have run: "cloneAll n h m (b # bs) = Some (h', m')" using b rest by simp
  have k: "keeps h h'" using k1 k2 by (rule keeps_trans)
  have mall: "\<forall>x\<in>set (b # bs). map_of m' x \<noteq> None" using mb dom2 mbs by auto
  have dom: "\<forall>x. map_of m x \<noteq> None \<longrightarrow> map_of m' x \<noteq> None" using dom1 dom2 by blast
  show ?case using run k mo2 fc2 mall dom by blast
qed

lemma baseClone_main:
  "shallow n h0 a \<Longrightarrow> keeps h0 h \<Longrightarrow> memo_ok h0 h m \<Longrightarrow> fresh_closed (length h0) h \<Longrightarrow>
       \<exists>a' h' m'. baseClone n h m a = Some (a', h', m') \<and> keeps h h' \<and> memo_ok h0 h' m'
          \<and> fresh_closed (length h0) h' \<and> map_of m' a = Some a'
          \<and> (\<forall>x. map_of m x \<noteq> None \<longrightarrow> map_of m' x \<noteq> None)"
proof (induction n arbitrary: a h m)
  case 0
  then show ?case by simp
next
  case (Suc n)
  from Suc.prems(1) obtain c where c0: "lookup h0 a = Some c"
    and kids: "\<forall>b\<in>set (refs_of c). shallow n h0 b"
    by (auto split: option.splits)
  have c: "lookup h a = Some c" using Suc.prems(2) c0 by (rule keeps_lookup)
  show ?case
  proof (cases "map_of m a")
    case (Some y)
    then have "baseClone (Suc n) h m a = Some (y, h, m)" by simp
    then show ?thesis using Some Suc.prems keeps_refl by blast
  next
    case None
    have "\<exists>h' m'. cloneAll n h m (refs_of c) = Some (h', m') \<and> keeps h h' \<and> memo_ok h0 h' m'
          \<and> fresh_closed (length h0) h' \<and> (\<forall>b\<in>set (refs_of c). map_of m' b \<noteq> None)
          \<and> (\<forall>x. map_of m x \<noteq> None \<longrightarrow> map_of m' x \<noteq> None)"
    proof (rule cloneAll_step [of n h0])
      fix h m a
      assume "shallow n h0 a" "keeps h0 h" "memo_ok h0 h m" "fresh_closed (length h0) h"
      then show "\<exists>a' h' m'. baseClone n h m a = Some (a', h', m') \<and> keeps h h' \<and> memo_ok h0 h' m'
          \<and> fresh_closed (length h0) h' \<and> map_of m' a = Some a'
          \<and> (\<forall>x. map_of m x \<noteq> None \<longrightarrow> map_of m' x \<noteq> None)"
        by (rule Suc.IH)
    qed (use kids Suc.prems in simp_all)
    then obtain h1 m1 where
      all: "cloneAll n h m (refs_of c) = Some (h1, m1)" and k1: "keeps h h1" and mo1: "memo_ok h0 h1 m1"
      and fc1: "fresh_closed (length h0) h1" and mk: "\<forall>b\<in>set (refs_of c). map_of m1 b \<noteq> None"
      and dom1: "\<forall>x. map_of m x \<noteq> None \<longrightarrow> map_of m1 x \<noteq> None"
      by (elim exE conjE) (rule that)
    define c' where "c' = map_refs (redirect m1) c"
    define a' where "a' = length h1"
    define h2 where "h2 = h1 @ [c']"
    define m2 where "m2 = (a, a') # m1"
    have run: "baseClone (Suc n) h m a = Some (a', h2, m2)"
      using None c all by (simp add: alloc_def c'_def a'_def h2_def m2_def)
    have k12: "keeps h1 h2" unfolding h2_def by (rule keeps_append)
    have k: "keeps h h2" using k1 k12 by (rule keeps_trans)
    have k01: "keeps h0 h1" using Suc.prems(2) k1 by (rule keeps_trans)
    have a'_ge: "length h0 \<le> a'" using k01 by (simp add: a'_def keeps_def)
    have la': "lookup h2 a' = Some c'" by (simp add: h2_def a'_def lookup_append_new)
    have kid_copy: "\<And>b. b \<in> set (refs_of c) \<Longrightarrow> length h0 \<le> redirect m1 b \<and> copy_of h0 h2 b (redirect m1 b)"
    proof -
      fix b assume "b \<in> set (refs_of c)"
      then obtain y where y: "map_of m1 b = Some y" using mk by auto
      then have "length h0 \<le> y" "copy_of h0 h1 b y" using mo1 by (auto simp: memo_ok_def)
      then show "length h0 \<le> redirect m1 b \<and> copy_of h0 h2 b (redirect m1 b)"
        using y k12 by (auto simp: redirect_def intro: copy_of_keeps)
    qed
    have "list_all2 (copy_of h0 h2) (refs_of c) (refs_of c')"
      unfolding c'_def refs_of_map_refs using kid_copy by (simp add: list_all2_conv_all_nth)
    then have copy: "copy_of h0 h2 a a'"
      using c0 la' by (intro copy_of.intros [of h0 a c h2 a' c']) (simp_all add: c'_def map_refs_const)
    have mo2: "memo_ok h0 h2 m2"
      unfolding memo_ok_def
    proof (intro allI impI)
      fix x y assume xy: "map_of m2 x = Some y"
      show "length h0 \<le> y \<and> copy_of h0 h2 x y"
      proof (cases "x = a")
        case True
        then have "y = a'" using xy by (simp add: m2_def)
        then show ?thesis using True a'_ge copy by simp
      next
        case False
        then have "map_of m1 x = Some y" using xy by (simp add: m2_def)
        then show ?thesis using mo1 k12 by (auto simp: memo_ok_def intro: copy_of_keeps)
      qed
    qed
    have "\<forall>d\<in>set (refs_of c'). length h0 \<le> d"
      unfolding c'_def refs_of_map_refs using kid_copy by auto
    then have fc2: "fresh_closed (length h0) h2"
      unfolding h2_def using fc1 by (intro fresh_closed_alloc)
    have ma: "map_of m2 a = Some a'" by (simp add: m2_def)
    have dom: "\<forall>x. map_of m x \<noteq> None \<longrightarrow> map_of m2 x \<noteq> None"
      using dom1 by (simp add: m2_def)
    show ?thesis using run k mo2 fc2 ma dom by blast
  qed
qed

lemma shallow_Suc_iff:
  "shallow (Suc n) h a \<longleftrightarrow> (\<exists>c. lookup h a = Some c \<and> (\<forall>b\<in>set (refs_of c). shallow n h b))"
  by (auto split: option.splits)

declare shallow.simps(2) [simp del]

lemma shallow_Suc: "shallow n h a \<Longrightarrow> shallow (Suc n) h a"
proof (induction n arbitrary: a)
  case 0
  then show ?case by simp
next
  case (Suc n)
  from Suc.prems obtain c where c: "lookup h a = Some c" and kids: "\<forall>b\<in>set (refs_of c). shallow n h b"
    unfolding shallow_Suc_iff by blast
  have "\<forall>b\<in>set (refs_of c). shallow (Suc n) h b" using kids Suc.IH by blast
  then show ?case using c unfolding shallow_Suc_iff [of "Suc n"] by blast
qed

lemma shallow_mono: "shallow n h a \<Longrightarrow> n \<le> k \<Longrightarrow> shallow k h a"
proof (induction k)
  case 0
  then show ?case by simp
next
  case (Suc k)
  show ?case
  proof (cases "n = Suc k")
    case True
    then show ?thesis using Suc.prems by simp
  next
    case False
    then have "n \<le> k" using Suc.prems by simp
    then show ?thesis using Suc by (intro shallow_Suc) simp
  qed
qed

lemma shallow_valid: "shallow n h a \<Longrightarrow> a < length h"
  by (cases n) (auto simp: shallow_Suc_iff dest: lookup_Some_lt)

lemma shallow_keeps: "shallow n h a \<Longrightarrow> keeps h h' \<Longrightarrow> shallow n h' a"
proof (induction n arbitrary: a)
  case 0
  then show ?case by simp
next
  case (Suc n)
  from Suc.prems(1) obtain c where c: "lookup h a = Some c" and kids: "\<forall>b\<in>set (refs_of c). shallow n h b"
    unfolding shallow_Suc_iff by blast
  have "lookup h' a = Some c" using Suc.prems(2) c by (rule keeps_lookup)
  then show ?case using kids Suc.IH Suc.prems(2) unfolding shallow_Suc_iff by blast
qed

lemma exact_chain:
  "shallow (Suc k) h b \<Longrightarrow> \<not> shallow k h b \<Longrightarrow> j \<le> k \<Longrightarrow> \<exists>d. shallow (Suc j) h d \<and> \<not> shallow j h d"
proof (induction k arbitrary: b)
  case 0
  then show ?case by auto
next
  case (Suc k)
  show ?case
  proof (cases "j = Suc k")
    case True
    then show ?thesis using Suc.prems by blast
  next
    case False
    then have jk: "j \<le> k" using Suc.prems by simp
    from Suc.prems(1) obtain c where c: "lookup h b = Some c"
      and kids: "\<forall>d\<in>set (refs_of c). shallow (Suc k) h d"
      unfolding shallow_Suc_iff [of "Suc k"] by blast
    from Suc.prems(2) c obtain d where d: "d \<in> set (refs_of c)" "\<not> shallow k h d"
      unfolding shallow_Suc_iff [of k] by auto
    then have "shallow (Suc k) h d" using kids by simp
    from Suc.IH [OF this d(2) jk] show ?thesis .
  qed
qed

lemma depth_bound:
  assumes "shallow (Suc k) h b" and "\<not> shallow k h b"
  shows "Suc k \<le> length h"
proof -
  define f where "f j = (SOME d. shallow (Suc j) h d \<and> \<not> shallow j h d)" for j
  have f: "\<And>j. j \<le> k \<Longrightarrow> shallow (Suc j) h (f j) \<and> \<not> shallow j h (f j)"
    unfolding f_def using exact_chain [OF assms] by (rule someI_ex)
  have inj: "inj_on f {0..k}"
  proof (rule inj_onI)
    fix i j assume i: "i \<in> {0..k}" and j: "j \<in> {0..k}" and eq: "f i = f j"
    show "i = j"
    proof (rule ccontr)
      assume ne: "i \<noteq> j"
      have *: "\<And>i j. i \<le> k \<Longrightarrow> j \<le> k \<Longrightarrow> f i = f j \<Longrightarrow> i < j \<Longrightarrow> False"
      proof -
        fix i j assume ij: "i \<le> k" "j \<le> k" "f i = f j" "i < j"
        have "shallow (Suc i) h (f i)" using f [OF ij(1)] by simp
        then have "shallow (Suc i) h (f j)" using ij(3) by simp
        moreover have "\<not> shallow j h (f j)" using f [OF ij(2)] by simp
        moreover have "Suc i \<le> j" using ij(4) by simp
        ultimately show False using shallow_mono by blast
      qed
      from ne have "i < j \<or> j < i" by auto
      then show False using * [of i j] * [of j i] i j eq by auto
    qed
  qed
  have "f ` {0..k} \<subseteq> {0..<length h}"
  proof
    fix x assume "x \<in> f ` {0..k}"
    then obtain j where j: "j \<le> k" "x = f j" by auto
    have "shallow (Suc j) h (f j)" using f [OF j(1)] by simp
    then have "f j < length h" by (rule shallow_valid)
    then show "x \<in> {0..<length h}" using j by simp
  qed
  then have "card {0..k} \<le> card {0..<length h}"
    using inj by (intro card_inj_on_le [of f]) auto
  then show ?thesis by simp
qed

lemma shallow_length: "shallow n h a \<Longrightarrow> shallow (length h) h a"
proof -
  assume s: "shallow n h a"
  define m where "m = (LEAST k. shallow k h a)"
  have sm: "shallow m h a" unfolding m_def using s by (rule LeastI)
  then obtain k where k: "m = Suc k" by (cases m) auto
  have "\<not> shallow k h a"
  proof
    assume "shallow k h a"
    then have "m \<le> k" unfolding m_def by (rule Least_le)
    then show False using k by simp
  qed
  then have "Suc k \<le> length h" using sm k depth_bound by blast
  then show ?thesis using sm k shallow_mono by blast
qed

lemma shallow_reach: "reach h a b \<Longrightarrow> shallow n h a \<Longrightarrow> \<exists>k. shallow k h b"
proof (induction rule: reach.induct)
  case reach_here
  then show ?case by blast
next
  case (reach_step b c d)
  then obtain k where k: "shallow k h b" by blast
  then obtain j where "k = Suc j" by (cases k) auto
  then have "shallow j h d" using k reach_step.hyps by (auto simp: shallow_Suc_iff)
  then show ?case by blast
qed

lemma reach_old: "reach h a b \<Longrightarrow> shallow n h a \<Longrightarrow> b < length h"
  using shallow_reach shallow_valid by blast

lemma reach_fresh: "reach h a b \<Longrightarrow> fresh_closed n h \<Longrightarrow> n \<le> a \<Longrightarrow> n \<le> b"
  by (induction rule: reach.induct) (auto simp: fresh_closed_def)

lemma copy_of_stable:
  "copy_of h0 h x y \<Longrightarrow> n \<le> y \<Longrightarrow> fresh_closed n h
     \<Longrightarrow> (\<And>z c. n \<le> z \<Longrightarrow> lookup h z = Some c \<Longrightarrow> lookup h2 z = Some c)
     \<Longrightarrow> copy_of h0 h2 x y"
proof (induction rule: copy_of.induct)
  case (copy_ofI a c a' c')
  have kids: "\<And>d. d \<in> set (refs_of c') \<Longrightarrow> n \<le> d"
    using copy_ofI.prems(1,2) copy_ofI.hyps(2) by (auto simp: fresh_closed_def)
  have "list_all2 (copy_of h0 h2) (refs_of c) (refs_of c')"
    using copy_ofI.IH
  proof (rule list.rel_mono_strong)
    fix b b' assume "b' \<in> set (refs_of c')"
      and "copy_of h0 h b b' \<and> (n \<le> b' \<longrightarrow> fresh_closed n h \<longrightarrow>
            (\<forall>x xa. n \<le> x \<longrightarrow> lookup h x = Some xa \<longrightarrow> lookup h2 x = Some xa) \<longrightarrow> copy_of h0 h2 b b')"
    then show "copy_of h0 h2 b b'" using kids copy_ofI.prems(2,3) by blast
  qed
  moreover have "lookup h2 a' = Some c'" using copy_ofI.hyps(2) copy_ofI.prems(1,3) by blast
  ultimately show ?case using copy_ofI.hyps by (intro copy_of.intros)
qed

lemma redirect_copies:
  assumes "memo_ok h0 h1 m1" and "\<forall>b\<in>set (refs_of c). map_of m1 b \<noteq> None"
  shows "list_all2 (copy_of h0 h1) (refs_of c) (refs_of (map_refs (redirect m1) c))"
    and "\<forall>d\<in>set (refs_of (map_refs (redirect m1) c)). length h0 \<le> d"
proof -
  have kid: "\<And>b. b \<in> set (refs_of c) \<Longrightarrow> length h0 \<le> redirect m1 b \<and> copy_of h0 h1 b (redirect m1 b)"
  proof -
    fix b assume "b \<in> set (refs_of c)"
    then obtain y where y: "map_of m1 b = Some y" using assms(2) by auto
    then have "length h0 \<le> y" "copy_of h0 h1 b y" using assms(1) by (auto simp: memo_ok_def)
    then show "length h0 \<le> redirect m1 b \<and> copy_of h0 h1 b (redirect m1 b)"
      using y by (simp add: redirect_def)
  qed
  show "list_all2 (copy_of h0 h1) (refs_of c) (refs_of (map_refs (redirect m1) c))"
    unfolding refs_of_map_refs using kid by (simp add: list_all2_conv_all_nth)
  show "\<forall>d\<in>set (refs_of (map_refs (redirect m1) c)). length h0 \<le> d"
    unfolding refs_of_map_refs using kid by auto
qed

lemma cloneAll_main:
  "\<forall>b\<in>set bs. shallow n h0 b \<Longrightarrow> keeps h0 h \<Longrightarrow> memo_ok h0 h m \<Longrightarrow> fresh_closed (length h0) h \<Longrightarrow>
       \<exists>h' m'. cloneAll n h m bs = Some (h', m') \<and> keeps h h' \<and> memo_ok h0 h' m'
          \<and> fresh_closed (length h0) h' \<and> (\<forall>b\<in>set bs. map_of m' b \<noteq> None)
          \<and> (\<forall>x. map_of m x \<noteq> None \<longrightarrow> map_of m' x \<noteq> None)"
  by (rule cloneAll_step) (rule baseClone_main)

lemma fresh_closed_base: "fresh_closed (length h) h"
  by (auto simp: fresh_closed_def dest: lookup_Some_lt)

lemma cloneDeep_spec:
  assumes sh: "shallow n h0 a" and k: "keeps h0 h" and fc: "fresh_closed (length h0) h"
  shows "\<exists>c h1 c'. lookup h0 a = Some c \<and> cloneDeep h a = Some (length h1, h1 @ [c']) \<and> keeps h h1
     \<and> map_refs (\<lambda>_. 0) c' = map_refs (\<lambda>_. 0) c
     \<and> list_all2 (copy_of h0 h1) (refs_of c) (refs_of c')
     \<and> (\<forall>d\<in>set (refs_of c'). length h0 \<le> d)
     \<and> fresh_closed (length h0) h1"
proof -
  have len: "length h0 \<le> length h" using k by (simp add: keeps_def)
  have "shallow (length h0) h0 a" using sh by (rule shallow_length)
  then have shl: "shallow (length h) h0 a" using len by (rule shallow_mono)
  then obtain n' where n': "length h = Suc n'" by (cases "length h") auto
  from shl obtain c where c0: "lookup h0 a = Some c" and kids: "\<forall>b\<in>set (refs_of c). shallow n' h0 b"
    unfolding n' shallow_Suc_iff by blast
  have c: "lookup h a = Some c" using k c0 by (rule keeps_lookup)
  have mo: "memo_ok h0 h []" by (simp add: memo_ok_def)
  from cloneAll_main [OF kids k mo fc] obtain h1 m1 where
    all: "cloneAll n' h [] (refs_of c) = Some (h1, m1)" and k1: "keeps h h1" and mo1: "memo_ok h0 h1 m1"
    and fc1: "fresh_closed (length h0) h1" and mk: "\<forall>b\<in>set (refs_of c). map_of m1 b \<noteq> None"
    by (elim exE conjE) (rule that)
  define c' where "c' = map_refs (redirect m1) c"
  have run: "cloneDeep h a = Some (length h1, h1 @ [c'])"
    using c all by (simp add: cloneDeep_def n' alloc_def c'_def)
  have pay: "map_refs (\<lambda>_. 0) c' = map_refs (\<lambda>_. 0) c" by (simp add: c'_def map_refs_const)
  note rc = redirect_copies [OF mo1 mk]
  show ?thesis using c0 run k1 pay rc fc1 unfolding c'_def [symmetric] by blast
qed

lemma cloneDeep_copy:
  assumes sh: "shallow n h0 a" and k: "keeps h0 h" and fc: "fresh_closed (length h0) h"
  shows "\<exists>a' h'. cloneDeep h a = Some (a', h') \<and> keeps h h' \<and> length h \<le> a'
     \<and> copy_of h0 h' a a' \<and> fresh_closed (length h0) h'"
proof -
  from cloneDeep_spec [OF assms] obtain c h1 c' where c0: "lookup h0 a = Some c"
    and run: "cloneDeep h a = Some (length h1, h1 @ [c'])" and k1: "keeps h h1"
    and pay: "map_refs (\<lambda>_. 0) c' = map_refs (\<lambda>_. 0) c"
    and kids: "list_all2 (copy_of h0 h1) (refs_of c) (refs_of c')"
    and ge: "\<forall>d\<in>set (refs_of c'). length h0 \<le> d"
    and fc1: "fresh_closed (length h0) h1"
    by (elim exE conjE) (rule that)
  have k2: "keeps h (h1 @ [c'])" using k1 keeps_append by (rule keeps_trans)
  have len: "length h \<le> length h1" using k1 by (simp add: keeps_def)
  have "list_all2 (copy_of h0 (h1 @ [c'])) (refs_of c) (refs_of c')"
    using kids by (rule list_all2_mono) (rule copy_of_keeps [OF _ keeps_append])
  then have cp: "copy_of h0 (h1 @ [c']) a (length h1)"
    using c0 pay by (intro copy_of.intros [of h0 a c _ _ c']) (simp_all add: lookup_append_new)
  have fc2: "fresh_closed (length h0) (h1 @ [c'])" using fc1 ge by (rule fresh_closed_alloc)
  show ?thesis using run k2 len cp fc2 by blast
qed

lemma shallow_SucD:
  "shallow (Suc k) h a \<Longrightarrow> lookup h a = Some c \<Longrightarrow> d \<in> set (refs_of c) \<Longrightarrow> shallow k h d"
  by (auto simp: shallow_Suc_iff)

lemma shallow_child:
  "shallow n h a \<Longrightarrow> lookup h a = Some c \<Longrightarrow> d \<in> set (refs_of c) \<Longrightarrow> shallow n h d"
proof -
  assume s: "shallow n h a" and c: "lookup h a = Some c" and d: "d \<in> set (refs_of c)"
  then obtain k where k: "n = Suc k" by (cases n) auto
  have "shallow k h d" using s [unfolded k] c d by (rule shallow_SucD)
  then show ?thesis unfolding k by (rule shallow_Suc)
qed

lemma below_exact:
  "reach h a b \<Longrightarrow> shallow (Suc k) h a \<Longrightarrow> b \<noteq> a \<Longrightarrow> shallow k h b"
proof (induction rule: reach.induct)
  case reach_here
  then show ?case by simp
next
  case (reach_step b c d)
  show ?case
  proof (cases "b = a")
    case True
    then have "lookup h a = Some c" using reach_step.hyps(2) by simp
    with reach_step.prems(1) show ?thesis using reach_step.hyps(3) by (rule shallow_SucD)
  next
    case False
    then have "shallow k h b" using reach_step by blast
    then show ?thesis using reach_step.hyps(2,3) by (rule shallow_child)
  qed
qed

lemma no_cycle:
  assumes "shallow n h a" and "reach h a b" and "lookup h b = Some c"
  shows "a \<notin> set (refs_of c)"
proof
  assume mem: "a \<in> set (refs_of c)"
  define m where "m = (LEAST k. shallow k h a)"
  have sm: "shallow m h a" unfolding m_def using assms(1) by (rule LeastI)
  then obtain k where k: "m = Suc k" by (cases m) auto
  have nk: "\<not> shallow k h a"
  proof
    assume "shallow k h a"
    then have "m \<le> k" unfolding m_def by (rule Least_le)
    then show False using k by simp
  qed
  have "shallow k h a"
  proof (cases "b = a")
    case True
    then have "lookup h a = Some c" using assms(3) by simp
    with sm [unfolded k] show ?thesis using mem by (rule shallow_SucD)
  next
    case False
    have "shallow k h b" using assms(2) sm False unfolding k by (rule below_exact)
    then show ?thesis using assms(3) mem by (rule shallow_child)
  qed
  then show False using nk by simp
qed

lemma reach_unchanged:
  assumes same: "\<And>z. reach h a z \<Longrightarrow> lookup h' z = lookup h z"
  shows "reach h' a z \<Longrightarrow> reach h a z"
proof (induction rule: reach.induct)
  case reach_here
  then show ?case by (rule reach.reach_here)
next
  case (reach_step b c d)
  then have "lookup h b = Some c" using same by simp
  with reach_step.IH show ?case using reach_step.hyps(3) by (rule reach.reach_step)
qed

lemma nth_opt_in_range: "0 \<le> i \<Longrightarrow> i < int (length xs) \<Longrightarrow> nth_opt xs i = Some (xs ! nat i)"
  by (simp add: nth_opt_def)


section \<open>Duplicating an environment\<close>

text \<open>
  Claim C8. For an index inside the collection, \<^verbatim>\<open>duplicateEnvironment\<close> returns the
  length of the old collection, which is the index of the new environment, and the
  collection is the old one with the new environment appended. The new environment is the
  old one with a newly generated uuid, the name followed by \<^verbatim>\<open> (copy)\<close>, a new empty
  \<^verbatim>\<open>duplicates\<close> array, and \<^verbatim>\<open>running\<close>, \<^verbatim>\<open>instance\<close>, \<^verbatim>\<open>startedAt\<close>,
  \<^verbatim>\<open>needRestart\<close> (and \<^verbatim>\<open>modifiedAt\<close>) reset; its routes are a structural deep copy
  of the original's. Every object reachable from the new environment is new, every object
  reachable from the original is an object of the old store and is unchanged: the two
  share nothing. Hence a write to any object under the copy's routes leaves every object
  of the original as it is, and the other way round.
\<close>

theorem duplicateEnvironment_isolated:
  assumes es: "get_refs (store s) (environments s) = Some es"
    and i0: "0 \<le> i" and i1: "i < int (length es)"
    and env: "get_env (store s) (es ! nat i) = Some env"
    and rs: "get_refs (store s) (e_routes env) = Some rs"
    and sh: "shallow n (store s) (es ! nat i)"
  shows "\<exists>s' new routes' duplicates'.
       duplicateEnvironment i cb s = Some (length es, s')
     \<and> environments s' = environments s
     \<and> get_refs (store s') (environments s') = Some (es @ [new])
     \<and> get_env (store s') new = Some (env\<lparr>e_uuid := uuidSource s (uuidCalls s),
            e_name := e_name env @ '' (copy)'', e_duplicates := duplicates', e_routes := routes',
            e_instance := Null, e_running := Some False, e_startedAt := Null,
            e_modifiedAt := Null, e_needRestart := Some False\<rparr>)
     \<and> uuidCalls s' = Suc (uuidCalls s)
     \<and> get_nums (store s') duplicates' = Some []
     \<and> copy_of (store s) (store s') (e_routes env) routes'
     \<and> (\<forall>b. reach (store s') new b \<longrightarrow> length (store s) \<le> b)
     \<and> (\<forall>z. reach (store s') (es ! nat i) z \<longrightarrow> z < length (store s) \<and> lookup (store s') z = lookup (store s) z)
     \<and> (\<forall>b z c. reach (store s') routes' b \<longrightarrow> reach (store s') (es ! nat i) z
            \<longrightarrow> lookup ((store s')[b := c]) z = lookup (store s') z
              \<and> lookup ((store s')[z := c]) b = lookup (store s') b)"
proof -
  define h0 where "h0 = store s"
  define a where "a = es ! nat i"
  define E where "E = environments s"
  define u where "u = uuidSource s (uuidCalls s)"
  define s1 where "s1 = s\<lparr>uuidCalls := Suc (uuidCalls s)\<rparr>"
  define d where "d = length h0"
  define h1 where "h1 = h0 @ [Nums []]"
  have es': "get_refs h0 E = Some es" using es by (simp add: h0_def E_def)
  have env': "get_env h0 a = Some env" using env by (simp add: h0_def a_def)
  have rs': "get_refs h0 (e_routes env) = Some rs" using rs by (simp add: h0_def)
  have sh': "shallow n h0 a" using sh by (simp add: h0_def a_def)
  have E_lt: "E < length h0" using es' by (rule get_refs_lt)
  have a_lt: "a < length h0" using env' by (rule get_env_lt)
  have aE: "a \<noteq> E" using es' env' by (auto simp: get_env_lookup get_refs_lookup)
  have "lookup h0 a = Some (Env env)" using env' by (simp add: get_env_lookup)
  with sh' have shr: "shallow n h0 (e_routes env)"
    by (rule shallow_child) simp
  have k01: "keeps h0 h1" unfolding h1_def by (rule keeps_append)
  have fc1: "fresh_closed (length h0) h1"
    unfolding h1_def by (rule fresh_closed_alloc [OF fresh_closed_base]) simp
  from cloneDeep_copy [OF shr k01 fc1] obtain r' h2 where
    clone: "cloneDeep h1 (e_routes env) = Some (r', h2)" and k12: "keeps h1 h2"
    and r'_ge: "length h1 \<le> r'" and cp2: "copy_of h0 h2 (e_routes env) r'"
    and fc2: "fresh_closed (length h0) h2"
    by (elim exE conjE) (rule that)
  define newEnv where "newEnv = env\<lparr>e_instance := Null, e_running := Some False,
            e_uuid := u, e_name := e_name env @ '' (copy)'', e_startedAt := Null,
            e_modifiedAt := Null, e_duplicates := d, e_needRestart := Some False,
            e_routes := r'\<rparr>"
  define new where "new = length h2"
  define h3 where "h3 = h2 @ [Env newEnv]"
  define h4 where "h4 = h3[E := Refs (es @ [new])]"
  define s' where "s' = next_event (Ref new) cb
      (s1\<lparr>store := h4, routesTotal := routesTotal s1 + int (length rs)\<rparr>)"
  have k02: "keeps h0 h2" using k01 k12 by (rule keeps_trans)
  have k23: "keeps h2 h3" unfolding h3_def by (rule keeps_append)
  have k03: "keeps h0 h3" using k02 k23 by (rule keeps_trans)
  have k13: "keeps h1 h3" using k12 k23 by (rule keeps_trans)
  have len: "length h0 \<le> length h2" using k02 by (simp add: keeps_def)
  have rs3: "get_refs h3 (e_routes env) = Some rs"
    using keeps_lookup [OF k03, of "e_routes env" "Refs rs"] rs' by (simp add: get_refs_lookup)
  have es3: "get_refs h3 E = Some es"
    using keeps_lookup [OF k03, of E "Refs es"] es' by (simp add: get_refs_lookup)
  have run: "duplicateEnvironment i cb s = Some (length es, s')"
    using es nth_opt_in_range [OF i0 i1] env clone rs3 es3
    unfolding s'_def h4_def h3_def new_def newEnv_def h1_def d_def s1_def u_def E_def a_def h0_def
    by (simp add: duplicateEnvironment_def uuid_def alloc_def Let_def next_event_def)
  have st: "store s' = h4" "environments s' = E" "uuidCalls s' = Suc (uuidCalls s)"
    by (simp_all add: s'_def next_event_def s1_def E_def)
  have above: "\<And>z. length h0 \<le> z \<Longrightarrow> lookup h4 z = lookup h3 z"
    using E_lt by (simp add: h4_def lookup_update)
  have below: "\<And>z. z < length h0 \<Longrightarrow> z \<noteq> E \<Longrightarrow> lookup h4 z = lookup h0 z"
    using k03 by (simp add: h4_def lookup_update keeps_def)
  have c2: "get_refs h4 E = Some (es @ [new])"
    using E_lt len by (simp add: h4_def h3_def get_refs_def lookup_update)
  have "lookup h3 new = Some (Env newEnv)" by (simp add: h3_def new_def lookup_append_new)
  then have c3: "get_env h4 new = Some newEnv"
    using above [of new] len by (simp add: new_def get_env_def)
  have "lookup h1 d = Some (Nums [])" by (simp add: h1_def d_def lookup_append_new)
  with k13 have "lookup h3 d = Some (Nums [])" by (rule keeps_lookup)
  then have c5: "get_nums h4 d = Some []" using above [of d] by (simp add: d_def get_nums_def)
  have r'_ge0: "length h0 \<le> r'" using r'_ge by (simp add: h1_def)
  have "\<forall>x\<in>set (refs_of (Env newEnv)). length h0 \<le> x"
    using r'_ge0 by (simp add: newEnv_def d_def)
  with fc2 have fc3: "fresh_closed (length h0) h3"
    unfolding h3_def by (rule fresh_closed_alloc)
  have fc4: "fresh_closed (length h0) h4"
    unfolding fresh_closed_def
  proof (intro allI impI)
    fix b c assume b: "length h0 \<le> b" and "lookup h4 b = Some c"
    then have "lookup h3 b = Some c" using above by simp
    then show "\<forall>d\<in>set (refs_of c). length h0 \<le> d" using fc3 b unfolding fresh_closed_def by blast
  qed
  have cp3: "copy_of h0 h3 (e_routes env) r'" using cp2 k23 by (rule copy_of_keeps)
  have c6: "copy_of h0 h4 (e_routes env) r'"
    using cp3 r'_ge0 fc3 by (rule copy_of_stable) (simp add: above)
  have c7: "\<forall>b. reach h4 new b \<longrightarrow> length h0 \<le> b"
  proof (intro allI impI)
    fix b assume "reach h4 new b"
    then show "length h0 \<le> b" using fc4 len unfolding new_def by (rule reach_fresh)
  qed
  have notE: "\<And>z. reach h0 a z \<Longrightarrow> z \<noteq> E"
  proof
    fix z assume "reach h0 a z" "z = E"
    then have "reach h0 a E" by simp
    from no_cycle [OF sh' this, of "Refs es"] es' have "a \<notin> set es" by (simp add: get_refs_lookup)
    then show False using i0 i1 by (simp add: a_def)
  qed
  have old: "\<And>z. reach h0 a z \<Longrightarrow> z < length h0 \<and> lookup h4 z = lookup h0 z"
  proof -
    fix z assume r: "reach h0 a z"
    then have "z < length h0" using sh' by (rule reach_old)
    moreover have "z \<noteq> E" using r by (rule notE)
    ultimately show "z < length h0 \<and> lookup h4 z = lookup h0 z" using below by simp
  qed
  have bk: "\<And>z. reach h4 a z \<Longrightarrow> reach h0 a z"
  proof -
    fix z assume "reach h4 a z"
    then show "reach h0 a z"
    proof (rule reach_unchanged [rotated])
      fix y assume "reach h0 a y"
      then show "lookup h4 y = lookup h0 y" using old by simp
    qed
  qed
  have c8: "\<forall>z. reach h4 a z \<longrightarrow> z < length h0 \<and> lookup h4 z = lookup h0 z"
    using bk old by blast
  have c7r: "\<And>b. reach h4 r' b \<Longrightarrow> length h0 \<le> b"
  proof -
    fix b assume "reach h4 r' b"
    then show "length h0 \<le> b" using fc4 r'_ge0 by (rule reach_fresh)
  qed
  have c9: "\<forall>b z c. reach h4 r' b \<longrightarrow> reach h4 a z
            \<longrightarrow> lookup (h4[b := c]) z = lookup h4 z \<and> lookup (h4[z := c]) b = lookup h4 b"
  proof (intro allI impI)
    fix b z c assume "reach h4 r' b" "reach h4 a z"
    then have "length h0 \<le> b" "z < length h0" using c7r c8 by blast+
    then have "b \<noteq> z" by simp
    then show "lookup (h4[b := c]) z = lookup h4 z \<and> lookup (h4[z := c]) b = lookup h4 b"
      by (auto simp: lookup_update)
  qed
  show ?thesis
    apply (rule exI [of _ s'])
    apply (rule exI [of _ new])
    apply (rule exI [of _ r'])
    apply (rule exI [of _ d])
    unfolding st
    apply (intro conjI)
    using run c2 c3 c5 c6 c7 c8 c9
    by (simp_all add: newEnv_def h0_def [symmetric] a_def [symmetric] u_def [symmetric] E_def)
qed

lemma exService_dup_hyps:
  "get_refs (store exService) (environments exService) = Some [12, 15]"
  "(0::int) \<le> 0" "(0::int) < int (length [12, 15 :: nat])"
  "get_env (store exService) ([12, 15] ! nat 0) = Some (exEnv ''e1'' 3000 10 11)"
  "get_refs (store exService) (e_routes (exEnv ''e1'' 3000 10 11)) = Some [3, 6, 9]"
  "shallow (Suc (Suc (Suc (Suc (Suc 0))))) (store exService) ([12, 15] ! nat 0)"
  by (simp_all add: exService_def exStore_def exEnv_def exRoute_def get_env_def get_refs_def lookup_def shallow.simps(2))

theorem duplicateEnvironment_isolated_witness:
  "\<exists>s' new routes'. duplicateEnvironment 0 None exService = Some (2, s')
     \<and> get_refs (store s') 16 = Some [12, 15, new]
     \<and> (\<exists>e. get_env (store s') new = Some e \<and> e_uuid e = ''u'' \<and> e_name e = ''Example (copy)''
            \<and> e_running e = Some False \<and> e_routes e = routes')
     \<and> copy_of exStore (store s') 10 routes'
     \<and> (\<forall>b. reach (store s') new b \<longrightarrow> 24 \<le> b)
     \<and> (\<forall>z. reach (store s') 12 z \<longrightarrow> z < 24)"
proof -
  from duplicateEnvironment_isolated [OF exService_dup_hyps, of None]
  obtain s' new routes' duplicates' where
    run: "duplicateEnvironment 0 None exService = Some (length [12, 15 :: nat], s')"
    and E0: "environments s' = environments exService"
    and arr: "get_refs (store s') (environments s') = Some ([12, 15] @ [new])"
    and env: "get_env (store s') new = Some ((exEnv ''e1'' 3000 10 11)\<lparr>e_uuid := uuidSource exService (uuidCalls exService),
            e_name := e_name (exEnv ''e1'' 3000 10 11) @ '' (copy)'', e_duplicates := duplicates', e_routes := routes',
            e_instance := Null, e_running := Some False, e_startedAt := Null,
            e_modifiedAt := Null, e_needRestart := Some False\<rparr>)"
    and calls: "uuidCalls s' = Suc (uuidCalls exService)"
    and dups: "get_nums (store s') duplicates' = Some []"
    and cp: "copy_of (store exService) (store s') (e_routes (exEnv ''e1'' 3000 10 11)) routes'"
    and fresh: "\<forall>b. reach (store s') new b \<longrightarrow> length (store exService) \<le> b"
    and old: "\<forall>z. reach (store s') ([12, 15] ! nat 0) z \<longrightarrow> z < length (store exService) \<and> lookup (store s') z = lookup (store exService) z"
    and iso: "\<forall>b z c. reach (store s') routes' b \<longrightarrow> reach (store s') ([12, 15] ! nat 0) z
            \<longrightarrow> lookup ((store s')[b := c]) z = lookup (store s') z
              \<and> lookup ((store s')[z := c]) b = lookup (store s') b"
    by (elim exE conjE) (rule that)
  have E: "environments s' = 16" using E0 by (simp add: exService_def)
  have l: "length (store exService) = 24" by (simp add: exService_def exStore_def)
  have c1: "duplicateEnvironment 0 None exService = Some (2, s')" using run by simp
  have c2: "get_refs (store s') 16 = Some [12, 15, new]" using arr E by simp
  have c3: "\<exists>e. get_env (store s') new = Some e \<and> e_uuid e = ''u'' \<and> e_name e = ''Example (copy)''
            \<and> e_running e = Some False \<and> e_routes e = routes'"
    using env by (simp add: exService_def exEnv_def)
  have c4: "copy_of exStore (store s') 10 routes'" using cp by (simp add: exService_def exEnv_def)
  have c5: "\<forall>b. reach (store s') new b \<longrightarrow> 24 \<le> b" using fresh l by simp
  have c6: "\<forall>z. reach (store s') 12 z \<longrightarrow> z < 24" using old l by simp
  show ?thesis using c1 c2 c3 c4 c5 c6 by blast
qed

section \<open>Persistence sanitization\<close>

lemma keeps_append_ex: "keeps h h' \<Longrightarrow> \<exists>xs. h' = h @ xs"
proof -
  assume k: "keeps h h'"
  have "take (length h) h' = h"
  proof (rule nth_equalityI)
    show "length (take (length h) h') = length h" using k by (simp add: keeps_def)
  next
    fix i assume "i < length (take (length h) h')"
    then have i: "i < length h" "i < length h'" by simp_all
    then have "lookup h' i = lookup h i" using k by (simp add: keeps_def)
    then show "take (length h) h' ! i = h ! i" using i by (simp add: lookup_def)
  qed
  then have "h' = h @ drop (length h) h'" by (metis append_take_drop_id)
  then show ?thesis by blast
qed

lemma slot_shape:
  "map_slot (\<lambda>_. 0) y = map_slot (\<lambda>_. 0) x \<Longrightarrow> length (slot_refs x) = length (slot_refs y)"
  by (cases x; cases y) simp_all

lemma slot_rel_refs:
  "map_slot (\<lambda>_. 0) y = map_slot (\<lambda>_. 0) x \<Longrightarrow> list_all2 R (slot_refs x) (slot_refs y) = slot_rel R x y"
  by (cases x; cases y) simp_all

lemma slot_rel_mono: "slot_rel R x y \<Longrightarrow> (\<And>a b. R a b \<Longrightarrow> Q a b) \<Longrightarrow> slot_rel Q x y"
  by (cases x; cases y) simp_all

lemma env_payload:
  assumes "map_refs (\<lambda>_. 0) c' = map_refs (\<lambda>_. 0) (Env e)"
  shows "\<exists>e1. c' = Env e1
     \<and> e1\<lparr>e_instance := Absent, e_running := None, e_startedAt := Absent, e_needRestart := None\<rparr>
        = e\<lparr>e_instance := Absent, e_running := None, e_startedAt := Absent, e_needRestart := None,
             e_routes := e_routes e1, e_modifiedAt := e_modifiedAt e1, e_duplicates := e_duplicates e1\<rparr>
     \<and> map_slot (\<lambda>_. 0) (e_instance e1) = map_slot (\<lambda>_. 0) (e_instance e)
     \<and> map_slot (\<lambda>_. 0) (e_startedAt e1) = map_slot (\<lambda>_. 0) (e_startedAt e)
     \<and> map_slot (\<lambda>_. 0) (e_modifiedAt e1) = map_slot (\<lambda>_. 0) (e_modifiedAt e)"
proof (cases c')
  case (Env e1)
  then have "e1\<lparr>e_instance := map_slot (\<lambda>_. 0) (e_instance e1), e_routes := 0,
       e_startedAt := map_slot (\<lambda>_. 0) (e_startedAt e1), e_modifiedAt := map_slot (\<lambda>_. 0) (e_modifiedAt e1),
       e_duplicates := 0\<rparr> = e\<lparr>e_instance := map_slot (\<lambda>_. 0) (e_instance e), e_routes := 0,
       e_startedAt := map_slot (\<lambda>_. 0) (e_startedAt e), e_modifiedAt := map_slot (\<lambda>_. 0) (e_modifiedAt e),
       e_duplicates := 0\<rparr>"
    using assms by simp
  then show ?thesis using Env by (cases e; cases e1) simp
qed (use assms in simp_all)

lemma env_refs_rel:
  assumes "map_slot (\<lambda>_. 0) (e_instance e1) = map_slot (\<lambda>_. 0) (e_instance e)"
    and "map_slot (\<lambda>_. 0) (e_startedAt e1) = map_slot (\<lambda>_. 0) (e_startedAt e)"
    and "map_slot (\<lambda>_. 0) (e_modifiedAt e1) = map_slot (\<lambda>_. 0) (e_modifiedAt e)"
    and "list_all2 R (refs_of (Env e)) (refs_of (Env e1))"
  shows "R (e_routes e) (e_routes e1) \<and> slot_rel R (e_modifiedAt e) (e_modifiedAt e1)
     \<and> R (e_duplicates e) (e_duplicates e1)"
  using assms(4) slot_shape [OF assms(1)] slot_shape [OF assms(2)] slot_shape [OF assms(3)]
  by (simp add: list_all2_append slot_rel_refs [OF assms(3)])

lemma cleaned_copy_keeps:
  assumes "cleaned_copy h0 h a a'" and "keeps h h2"
  shows "cleaned_copy h0 h2 a a'"
proof -
  from assms(1) obtain e e' where e: "get_env h0 a = Some e" and e': "get_env h a' = Some e'"
    and eq: "e' = e\<lparr>e_instance := Absent, e_running := None, e_startedAt := Absent, e_needRestart := None,
                 e_routes := e_routes e', e_modifiedAt := e_modifiedAt e', e_duplicates := e_duplicates e'\<rparr>"
    and r: "copy_of h0 h (e_routes e) (e_routes e')"
    and m: "slot_rel (copy_of h0 h) (e_modifiedAt e) (e_modifiedAt e')"
    and d: "copy_of h0 h (e_duplicates e) (e_duplicates e')"
    unfolding cleaned_copy_def by blast
  have "lookup h a' = Some (Env e')" using e' by (simp add: get_env_lookup)
  with assms(2) have "lookup h2 a' = Some (Env e')" by (rule keeps_lookup)
  then have e2: "get_env h2 a' = Some e'" by (simp add: get_env_lookup)
  have r2: "copy_of h0 h2 (e_routes e) (e_routes e')" using r assms(2) by (rule copy_of_keeps)
  have d2: "copy_of h0 h2 (e_duplicates e) (e_duplicates e')" using d assms(2) by (rule copy_of_keeps)
  have m2: "slot_rel (copy_of h0 h2) (e_modifiedAt e) (e_modifiedAt e')"
    using m by (rule slot_rel_mono) (rule copy_of_keeps [OF _ assms(2)])
  show ?thesis unfolding cleaned_copy_def using e e2 eq r2 m2 d2 by blast
qed

lemma clean_step:
  assumes e: "get_env h0 a = Some e" and sh: "shallow n h0 a"
    and k: "keeps h0 h" and fc: "fresh_closed (length h0) h"
  shows "\<exists>a' h1 e1. cloneDeep h a = Some (a', h1) \<and> get_env h1 a' = Some e1
     \<and> length h0 \<le> a'
     \<and> keeps h (h1[a' := Env (e1\<lparr>e_instance := Absent, e_running := None,
                                   e_startedAt := Absent, e_needRestart := None\<rparr>)])
     \<and> fresh_closed (length h0) (h1[a' := Env (e1\<lparr>e_instance := Absent, e_running := None,
                                   e_startedAt := Absent, e_needRestart := None\<rparr>)])
     \<and> cleaned_copy h0 (h1[a' := Env (e1\<lparr>e_instance := Absent, e_running := None,
                                   e_startedAt := Absent, e_needRestart := None\<rparr>)]) a a'"
proof -
  have l0: "lookup h0 a = Some (Env e)" using e by (simp add: get_env_lookup)
  from cloneDeep_spec [OF sh k fc] l0 obtain h1 c' where
    run: "cloneDeep h a = Some (length h1, h1 @ [c'])" and k1: "keeps h h1"
    and pay: "map_refs (\<lambda>_. 0) c' = map_refs (\<lambda>_. 0) (Env e)"
    and kids: "list_all2 (copy_of h0 h1) (refs_of (Env e)) (refs_of c')"
    and ge: "\<forall>d\<in>set (refs_of c'). length h0 \<le> d"
    and fc1: "fresh_closed (length h0) h1"
    by auto
  from env_payload [OF pay] obtain e1 where c': "c' = Env e1"
    and eq: "e1\<lparr>e_instance := Absent, e_running := None, e_startedAt := Absent, e_needRestart := None\<rparr>
        = e\<lparr>e_instance := Absent, e_running := None, e_startedAt := Absent, e_needRestart := None,
             e_routes := e_routes e1, e_modifiedAt := e_modifiedAt e1, e_duplicates := e_duplicates e1\<rparr>"
    and s1: "map_slot (\<lambda>_. 0) (e_instance e1) = map_slot (\<lambda>_. 0) (e_instance e)"
    and s2: "map_slot (\<lambda>_. 0) (e_startedAt e1) = map_slot (\<lambda>_. 0) (e_startedAt e)"
    and s3: "map_slot (\<lambda>_. 0) (e_modifiedAt e1) = map_slot (\<lambda>_. 0) (e_modifiedAt e)"
    by (elim exE conjE) (rule that)
  define e' where "e' = e1\<lparr>e_instance := Absent, e_running := None,
                             e_startedAt := Absent, e_needRestart := None\<rparr>"
  define h2 where "h2 = h1 @ [Env e']"
  have upd: "(h1 @ [c'])[length h1 := Env e'] = h2" by (simp add: h2_def)
  have g1: "get_env (h1 @ [c']) (length h1) = Some e1"
    by (simp add: c' get_env_def lookup_append_new)
  have len: "length h0 \<le> length h1" using k k1 by (simp add: keeps_def)
  have k12: "keeps h1 h2" unfolding h2_def by (rule keeps_append)
  have k2: "keeps h h2" using k1 k12 by (rule keeps_trans)
  have "\<forall>d\<in>set (refs_of (Env e')). length h0 \<le> d" using ge by (auto simp: c' e'_def)
  with fc1 have fc2: "fresh_closed (length h0) h2" unfolding h2_def by (rule fresh_closed_alloc)
  from env_refs_rel [OF s1 s2 s3 kids [unfolded c']]
  have r: "copy_of h0 h1 (e_routes e) (e_routes e1)"
    and m: "slot_rel (copy_of h0 h1) (e_modifiedAt e) (e_modifiedAt e1)"
    and d: "copy_of h0 h1 (e_duplicates e) (e_duplicates e1)"
    by simp_all
  have r2: "copy_of h0 h2 (e_routes e) (e_routes e')"
    using copy_of_keeps [OF r k12] by (simp add: e'_def)
  have d2: "copy_of h0 h2 (e_duplicates e) (e_duplicates e')"
    using copy_of_keeps [OF d k12] by (simp add: e'_def)
  have "slot_rel (copy_of h0 h2) (e_modifiedAt e) (e_modifiedAt e1)"
    using m by (rule slot_rel_mono) (rule copy_of_keeps [OF _ k12])
  then have m2: "slot_rel (copy_of h0 h2) (e_modifiedAt e) (e_modifiedAt e')" by (simp add: e'_def)
  have g2: "get_env h2 (length h1) = Some e'" by (simp add: h2_def get_env_def lookup_append_new)
  have eq': "e' = e\<lparr>e_instance := Absent, e_running := None, e_startedAt := Absent, e_needRestart := None,
                 e_routes := e_routes e', e_modifiedAt := e_modifiedAt e', e_duplicates := e_duplicates e'\<rparr>"
    using eq by (simp add: e'_def)
  have cc: "cleaned_copy h0 h2 a (length h1)"
    unfolding cleaned_copy_def using e g2 eq' r2 m2 d2 by blast
  show ?thesis
    apply (rule exI [of _ "length h1"])
    apply (rule exI [of _ "h1 @ [c']"])
    apply (rule exI [of _ e1])
    unfolding e'_def [symmetric] upd
    using run g1 len k2 fc2 cc by simp
qed

lemma mapClean_spec:
  assumes "\<forall>a\<in>set as. (\<exists>e. get_env h0 a = Some e) \<and> shallow n h0 a"
    and "keeps h0 h" and "fresh_closed (length h0) h"
  shows "\<exists>copies h'. mapClean as h = Some (copies, h') \<and> keeps h h' \<and> fresh_closed (length h0) h'
     \<and> length copies = length as
     \<and> (\<forall>i<length as. length h0 \<le> copies ! i \<and> cleaned_copy h0 h' (as ! i) (copies ! i))"
  using assms
proof (induction as arbitrary: h)
  case Nil
  then show ?case by (simp add: keeps_refl)
next
  case (Cons a as)
  from Cons.prems(1) obtain e where e: "get_env h0 a = Some e" and sh: "shallow n h0 a"
    and rest: "\<forall>a\<in>set as. (\<exists>e. get_env h0 a = Some e) \<and> shallow n h0 a"
    by auto
  from clean_step [OF e sh Cons.prems(2,3)] obtain a' h1 e1 where
    run: "cloneDeep h a = Some (a', h1)" and g: "get_env h1 a' = Some e1" and ge: "length h0 \<le> a'"
    and k2: "keeps h (h1[a' := Env (e1\<lparr>e_instance := Absent, e_running := None,
                                   e_startedAt := Absent, e_needRestart := None\<rparr>)])"
    and fc2: "fresh_closed (length h0) (h1[a' := Env (e1\<lparr>e_instance := Absent, e_running := None,
                                   e_startedAt := Absent, e_needRestart := None\<rparr>)])"
    and cc: "cleaned_copy h0 (h1[a' := Env (e1\<lparr>e_instance := Absent, e_running := None,
                                   e_startedAt := Absent, e_needRestart := None\<rparr>)]) a a'"
    by (elim exE conjE) (rule that)
  define h2 where "h2 = h1[a' := Env (e1\<lparr>e_instance := Absent, e_running := None,
                                   e_startedAt := Absent, e_needRestart := None\<rparr>)]"
  have k02: "keeps h0 h2" using Cons.prems(2) k2 unfolding h2_def by (rule keeps_trans)
  from Cons.IH [OF rest k02 fc2 [folded h2_def]] obtain copies h' where
    more: "mapClean as h2 = Some (copies, h')" and k3: "keeps h2 h'"
    and fc3: "fresh_closed (length h0) h'" and len: "length copies = length as"
    and all: "\<forall>i<length as. length h0 \<le> copies ! i \<and> cleaned_copy h0 h' (as ! i) (copies ! i)"
    by (elim exE conjE) (rule that)
  have r: "mapClean (a # as) h = Some (a' # copies, h')"
    using run g more by (simp add: h2_def)
  have k: "keeps h h'" using k2 [folded h2_def] k3 by (rule keeps_trans)
  have cc': "cleaned_copy h0 h' a a'" using cc [folded h2_def] k3 by (rule cleaned_copy_keeps)
  have all': "\<forall>i<length (a # as). length h0 \<le> (a' # copies) ! i
       \<and> cleaned_copy h0 h' ((a # as) ! i) ((a' # copies) ! i)"
  proof (intro allI impI)
    fix i assume "i < length (a # as)"
    then show "length h0 \<le> (a' # copies) ! i \<and> cleaned_copy h0 h' ((a # as) ! i) ((a' # copies) ! i)"
      using ge cc' all by (cases i) simp_all
  qed
  show ?case
    apply (rule exI [of _ "a' # copies"])
    apply (rule exI [of _ h'])
    using r k fc3 len all' by simp
qed


text \<open>
  Claim C7. \<^verbatim>\<open>cleanBeforeSave\<close> returns a new array with one environment per live
  environment, in order. Each is the live environment without the four transient
  properties, all other primitive properties equal and all nested objects deep copies.
  The store it leaves is the old store followed by new objects, so the live collection is
  unchanged, and no object reachable from the returned array is an object of the old
  store.
\<close>

theorem cleanBeforeSave_deep_copy:
  assumes es: "get_refs (store s) (environments s) = Some es"
    and wf: "\<forall>a\<in>set es. (\<exists>e. get_env (store s) a = Some e) \<and> shallow n (store s) a"
  shows "\<exists>environmentsCopy s' copies new.
       cleanBeforeSave arg s = Some (environmentsCopy, s')
     \<and> s' = s\<lparr>store := store s @ new\<rparr>
     \<and> get_refs (store s') environmentsCopy = Some copies
     \<and> length copies = length es
     \<and> (\<forall>i<length es. cleaned_copy (store s) (store s') (es ! i) (copies ! i))
     \<and> (\<forall>b. reach (store s') environmentsCopy b \<longrightarrow> length (store s) \<le> b)"
proof -
  from mapClean_spec [OF wf keeps_refl fresh_closed_base] obtain copies h' where
    run: "mapClean es (store s) = Some (copies, h')" and k: "keeps (store s) h'"
    and fc: "fresh_closed (length (store s)) h'" and len: "length copies = length es"
    and all: "\<forall>i<length es. length (store s) \<le> copies ! i \<and> cleaned_copy (store s) h' (es ! i) (copies ! i)"
    by (elim exE conjE) (rule that)
  define res where "res = length h'"
  define h2 where "h2 = h' @ [Refs copies]"
  have k2: "keeps (store s) h2" using k keeps_append unfolding h2_def by (rule keeps_trans)
  then obtain new where new: "h2 = store s @ new" using keeps_append_ex by blast
  have c1: "cleanBeforeSave arg s = Some (res, s\<lparr>store := store s @ new\<rparr>)"
    using es run new by (simp add: cleanBeforeSave_def alloc_def res_def h2_def)
  have c3: "get_refs h2 res = Some copies" by (simp add: h2_def res_def get_refs_def lookup_append_new)
  have c5: "\<forall>i<length es. cleaned_copy (store s) h2 (es ! i) (copies ! i)"
    using all cleaned_copy_keeps [OF _ keeps_append] unfolding h2_def by blast
  have "\<forall>d\<in>set (refs_of (Refs copies)). length (store s) \<le> d"
    using all len by (auto simp: in_set_conv_nth)
  with fc have fc2: "fresh_closed (length (store s)) h2" unfolding h2_def by (rule fresh_closed_alloc)
  have res_ge: "length (store s) \<le> res" using k by (simp add: res_def keeps_def)
  have c6: "\<forall>b. reach h2 res b \<longrightarrow> length (store s) \<le> b"
  proof (intro allI impI)
    fix b assume "reach h2 res b"
    then show "length (store s) \<le> b" using fc2 res_ge by (rule reach_fresh)
  qed
  show ?thesis
    apply (rule exI [of _ res])
    apply (rule exI [of _ "s\<lparr>store := store s @ new\<rparr>"])
    apply (rule exI [of _ copies])
    apply (rule exI [of _ new])
    using c1 c3 len c5 c6 new by simp
qed

lemma exService_shallow:
  "\<forall>a\<in>set [12, 15]. (\<exists>e. get_env (store exService) a = Some e)
       \<and> shallow (Suc (Suc (Suc (Suc (Suc 0))))) (store exService) a"
  by (simp add: exService_def exStore_def exEnv_def exRoute_def get_env_def lookup_def shallow.simps(2))

theorem cleanBeforeSave_deep_copy_witness:
  "\<exists>environmentsCopy s' copies new.
       cleanBeforeSave 16 exService = Some (environmentsCopy, s')
     \<and> s' = exService\<lparr>store := store exService @ new\<rparr>
     \<and> get_refs (store s') environmentsCopy = Some copies
     \<and> length copies = length [12, 15 :: nat]
     \<and> (\<forall>i<length [12, 15 :: nat]. cleaned_copy (store exService) (store s') ([12, 15] ! i) (copies ! i))
     \<and> (\<forall>b. reach (store s') environmentsCopy b \<longrightarrow> length (store exService) \<le> b)"
  by (rule cleanBeforeSave_deep_copy [OF exService_hyps(1) exService_shallow])

section \<open>The routes counter\<close>


















section \<open>The uuids of new and duplicated routes\<close>

text \<open>
  Claim C3, evaluated. On the service as constructed (the schemas of the class, an empty
  collection), \<^verbatim>\<open>addEnvironment\<close> returns index 0 and the environment it appends has the
  generated uuid \<^verbatim>\<open>uu\<close> and one route with one header; the header has the generated
  uuid \<^verbatim>\<open>u\<close>, but the uuid of the route is the empty string of \<^verbatim>\<open>routeSchema\<close>.
  \<^verbatim>\<open>addRoute\<close> on the first example environment appends a fourth route and returns 3;
  its header has a generated uuid, its own uuid is again the empty string.
\<close>

theorem new_route_keeps_schema_uuid:
  "(\<exists>s'. addEnvironment 0 None emptyService = Some (0, s')
      \<and> get_refs (store s') (environments s') = Some [13]
      \<and> map_option e_uuid (get_env (store s') 13) = Some ''uu''
      \<and> routeUuids (store s') 13 = Some ['''']
      \<and> map_option e_routes (get_env (store s') 13) = Some 11
      \<and> get_refs (store s') 11 = Some [10]
      \<and> headerUuids (store s') 10 = Some [''u''])
   \<and> (\<exists>s'. addRoute 12 None exService = Some (3, s')
      \<and> get_refs (store s') 10 = Some [3, 6, 9, 26]
      \<and> routeUuids (store s') 12 = Some [''r1'', ''r2'', ''r3'', '''']
      \<and> headerUuids (store s') 26 = Some [''u''])"
proof (rule conjI)
  show "\<exists>s'. addEnvironment 0 None emptyService = Some (0, s')
      \<and> get_refs (store s') (environments s') = Some [13]
      \<and> map_option e_uuid (get_env (store s') 13) = Some ''uu''
      \<and> routeUuids (store s') 13 = Some ['''']
      \<and> map_option e_routes (get_env (store s') 13) = Some 11
      \<and> get_refs (store s') 11 = Some [10]
      \<and> headerUuids (store s') 10 = Some [''u'']"
    by (simp add: addEnvironment_def newRoute_def uuid_def alloc_def next_event_def emptyService_def Let_def
        get_env_def get_route_def get_header_def get_refs_def lookup_def routeUuids_def headerUuids_def
        environmentSchemaValue_def routeSchemaValue_def customHeadersSchemaValue_def)
  show "\<exists>s'. addRoute 12 None exService = Some (3, s')
      \<and> get_refs (store s') 10 = Some [3, 6, 9, 26]
      \<and> routeUuids (store s') 12 = Some [''r1'', ''r2'', ''r3'', '''']
      \<and> headerUuids (store s') 26 = Some [''u'']"
    by (simp add: addRoute_def newRoute_def uuid_def alloc_def next_event_def exService_def exStore_def Let_def
        get_env_def get_route_def get_header_def get_refs_def lookup_def routeUuids_def headerUuids_def
        exEnv_def exRoute_def exHeader_def
        environmentSchemaValue_def routeSchemaValue_def customHeadersSchemaValue_def)
qed

text \<open>
  Claim C4, evaluated. The three routes of the example collection have three distinct
  uuids. After \<^verbatim>\<open>duplicateEnvironment\<close> of the first environment the collection has six
  routes and each uuid occurs twice: \<^verbatim>\<open>cloneDeep\<close> copies the uuid of every route (and
  of every header), and nothing generates a new one.
\<close>

lemma exService_duplicated:
  "map_option (\<lambda>(k, s'). (k, allRouteUuids s')) (duplicateEnvironment 0 None exService)
    = Some (2, Some [''r1'', ''r2'', ''r3'', ''r1'', ''r2'', ''r3''])"
  by code_simp

theorem duplicateEnvironment_repeats_route_uuids:
  "\<exists>s'. allRouteUuids exService = Some [''r1'', ''r2'', ''r3'']
     \<and> distinct [''r1'', ''r2'', ''r3'']
     \<and> duplicateEnvironment 0 None exService = Some (2, s')
     \<and> allRouteUuids s' = Some [''r1'', ''r2'', ''r3'', ''r1'', ''r2'', ''r3'']
     \<and> \<not> distinct [''r1'', ''r2'', ''r3'', ''r1'', ''r2'', ''r3'']"
proof -
  have before: "allRouteUuids exService = Some [''r1'', ''r2'', ''r3'']"
    by (simp add: allRouteUuids_def routeUuids_def exService_def exStore_def
        get_env_def get_route_def get_refs_def lookup_def exEnv_def exRoute_def)
  from exService_duplicated obtain s' where "duplicateEnvironment 0 None exService = Some (2, s')"
    and "allRouteUuids s' = Some [''r1'', ''r2'', ''r3'', ''r1'', ''r2'', ''r3'']"
    by (cases "duplicateEnvironment 0 None exService") auto
  then show ?thesis using before by auto
qed

section \<open>Import of a verified document\<close>

lemma applySteps_append:
  "applySteps (xs @ ys) s = applySteps xs s \<bind> applySteps ys"
  by (induction xs arbitrary: s) (auto split: bind_splits)

lemma forEachMigrated_steps:
  "forEachMigrated m es s = applySteps (map (Pair m) es) s"
  by (induction es arbitrary: s) (auto split: bind_splits)

lemma applySteps_keeps:
  assumes "\<forall>m\<in>fst ` set steps. \<forall>a t t'. m a t = Some t' \<longrightarrow> get_refs (store t') d = get_refs (store t) d"
    and "applySteps steps s = Some s'"
  shows "get_refs (store s') d = get_refs (store s) d"
  using assms
proof (induction steps arbitrary: s)
  case Nil
  then show ?case by simp
next
  case (Cons p steps)
  obtain m a where p: "p = (m, a)" by (cases p)
  from Cons.prems(2) obtain s1 where s1: "m a s = Some s1" and rest: "applySteps steps s1 = Some s'"
    by (auto simp: p split: bind_splits)
  have "get_refs (store s1) d = get_refs (store s) d" using Cons.prems(1) s1 by (auto simp: p)
  moreover have "get_refs (store s') d = get_refs (store s1) d"
    using Cons.prems(1) rest by (intro Cons.IH) auto
  ultimately show ?case by simp
qed

lemma migrateData_pipeline:
  assumes "\<forall>m\<in>set Ms. \<forall>a t t'. m a t = Some t' \<longrightarrow> get_refs (store t') d = get_refs (store t) d"
    and "get_refs (store s) d = Some es"
  shows "migrateData Ms d s = migrationPipeline Ms es s"
  using assms
proof (induction Ms arbitrary: s)
  case Nil
  then show ?case by (simp add: migrationPipeline_def)
next
  case (Cons m Ms)
  have keep: "\<forall>m'\<in>fst ` set (map (Pair m) es). \<forall>a t t'. m' a t = Some t' \<longrightarrow> get_refs (store t') d = get_refs (store t) d"
    using Cons.prems(1) by auto
  have step: "migrateData Ms d s1 = migrationPipeline Ms es s1"
    if "applySteps (map (Pair m) es) s = Some s1" for s1
  proof -
    have "get_refs (store s1) d = Some es" using applySteps_keeps [OF keep that] Cons.prems(2) by simp
    then show ?thesis using Cons.prems(1) by (intro Cons.IH) auto
  qed
  show ?case
    using Cons.prems(2) step
    by (cases "applySteps (map (Pair m) es) s")
       (simp_all add: migrationPipeline_def applySteps_append forEachMigrated_steps)
qed

lemma erase_set_uuid: "erase_uuid (set_uuid u c) = erase_uuid c"
  by (cases c) simp_all

lemma length_assign: "length (assign_uuids src k xs h) = length h"
  by (induction xs arbitrary: k h) simp_all

lemma assign_other: "a \<notin> set xs \<Longrightarrow> assign_uuids src k xs h ! a = h ! a"
  by (induction xs arbitrary: k h) auto

lemma assign_nth:
  "distinct xs \<Longrightarrow> i < length xs \<Longrightarrow> xs ! i < length h
     \<Longrightarrow> assign_uuids src k xs h ! (xs ! i) = set_uuid (src (k + i)) (h ! (xs ! i))"
proof (induction xs arbitrary: k h i)
  case Nil
  then show ?case by simp
next
  case (Cons a xs)
  show ?case
  proof (cases i)
    case 0
    then show ?thesis using Cons.prems by (simp add: assign_other)
  next
    case (Suc j)
    then have j: "j < length xs" "xs ! j \<noteq> a" "xs ! j < length h" using Cons.prems by auto
    have "assign_uuids src (Suc k) xs (h[a := set_uuid (src k) (h ! a)]) ! (xs ! j)
        = set_uuid (src (Suc k + j)) (h[a := set_uuid (src k) (h ! a)] ! (xs ! j))"
      using Cons.prems(1) j by (intro Cons.IH) simp_all
    then show ?thesis using j Suc by simp
  qed
qed

lemma assign_erase: "a < length h \<Longrightarrow> erase_uuid (assign_uuids src k xs h ! a) = erase_uuid (h ! a)"
proof (induction xs arbitrary: k h)
  case Nil
  then show ?case by simp
next
  case (Cons b xs)
  have "erase_uuid (assign_uuids src (Suc k) xs (h[b := set_uuid (src k) (h ! b)]) ! a)
      = erase_uuid (h[b := set_uuid (src k) (h ! b)] ! a)"
    using Cons.prems by (intro Cons.IH) simp
  then show ?case using Cons.prems by (cases "a = b") (simp_all add: erase_set_uuid)
qed

lemma assign_append:
  "assign_uuids src k (xs @ ys) h = assign_uuids src (k + length xs) ys (assign_uuids src k xs h)"
  by (induction xs arbitrary: k h) simp_all

lemma same_shape_refl: "same_shape h h"
  by (simp add: same_shape_def)

lemma same_shape_assign: "same_shape h (assign_uuids src k xs h)"
  by (simp add: same_shape_def lookup_def length_assign assign_erase)

lemma shape_cases:
  assumes "same_shape h h'"
  shows "(lookup h a = None \<and> lookup h' a = None)
       \<or> (\<exists>c c'. lookup h a = Some c \<and> lookup h' a = Some c' \<and> erase_uuid c' = erase_uuid c)"
proof -
  from assms have "map_option erase_uuid (lookup h' a) = map_option erase_uuid (lookup h a)"
    by (simp add: same_shape_def)
  then show ?thesis by (cases "lookup h a"; cases "lookup h' a") simp_all
qed

lemma erase_Refs: "erase_uuid c' = erase_uuid c \<Longrightarrow> (c' = Refs xs) = (c = Refs xs)"
  by (cases c; cases c') simp_all

lemma erase_Export: "erase_uuid c' = erase_uuid c \<Longrightarrow> (c' = Export x) = (c = Export x)"
  by (cases c; cases c') simp_all

lemma erase_Route:
  assumes "erase_uuid c' = erase_uuid c" and "c = Route r"
  shows "\<exists>r'. c' = Route r' \<and> r' = r\<lparr>r_uuid := r_uuid r'\<rparr>"
proof -
  from assms obtain r' where "c' = Route r'" "r'\<lparr>r_uuid := []\<rparr> = r\<lparr>r_uuid := []\<rparr>"
    by (cases c') auto
  then show ?thesis by (cases r; cases r') simp
qed

lemma erase_Env:
  assumes "erase_uuid c' = erase_uuid c" and "c = Env e"
  shows "\<exists>e'. c' = Env e' \<and> e' = e\<lparr>e_uuid := e_uuid e'\<rparr>"
proof -
  from assms obtain e' where "c' = Env e'" "e'\<lparr>e_uuid := []\<rparr> = e\<lparr>e_uuid := []\<rparr>"
    by (cases c') auto
  then show ?thesis by (cases e; cases e') simp
qed

lemma erase_Header:
  "erase_uuid c' = erase_uuid c \<Longrightarrow> c = Header x \<Longrightarrow> \<exists>x'. c' = Header x'"
  by (cases c') auto

lemma same_shape_sym: "same_shape h h' \<Longrightarrow> same_shape h' h"
  by (simp add: same_shape_def)

lemma shape_refs: "same_shape h h' \<Longrightarrow> get_refs h' a = get_refs h a"
proof -
  assume s: "same_shape h h'"
  from shape_cases [OF s, of a] show ?thesis
  proof (elim disjE exE conjE)
    fix c c' assume "lookup h a = Some c" "lookup h' a = Some c'" "erase_uuid c' = erase_uuid c"
    then show ?thesis by (cases c; cases c') (simp_all add: get_refs_def)
  qed (simp add: get_refs_def)
qed

lemma shape_export: "same_shape h h' \<Longrightarrow> get_export h' a = get_export h a"
proof -
  assume s: "same_shape h h'"
  from shape_cases [OF s, of a] show ?thesis
  proof (elim disjE exE conjE)
    fix c c' assume "lookup h a = Some c" "lookup h' a = Some c'" "erase_uuid c' = erase_uuid c"
    then show ?thesis by (cases c; cases c') (simp_all add: get_export_def)
  qed (simp add: get_export_def)
qed

lemma shape_route:
  assumes s: "same_shape h h'" and r: "get_route h a = Some r"
  shows "\<exists>r'. get_route h' a = Some r' \<and> r' = r\<lparr>r_uuid := r_uuid r'\<rparr>"
proof -
  from shape_cases [OF s, of a] r obtain c' where "lookup h' a = Some c'" "erase_uuid c' = erase_uuid (Route r)"
    by (auto simp: get_route_lookup)
  then show ?thesis using erase_Route [of c' "Route r" r] by (auto simp: get_route_lookup)
qed

lemma shape_env:
  assumes s: "same_shape h h'" and e: "get_env h a = Some e"
  shows "\<exists>e'. get_env h' a = Some e' \<and> e' = e\<lparr>e_uuid := e_uuid e'\<rparr>"
proof -
  from shape_cases [OF s, of a] e obtain c' where "lookup h' a = Some c'" "erase_uuid c' = erase_uuid (Env e)"
    by (auto simp: get_env_lookup)
  then show ?thesis using erase_Env [of c' "Env e" e] by (auto simp: get_env_lookup)
qed

lemma shape_header:
  assumes s: "same_shape h h'" and x: "get_header h a \<noteq> None"
  shows "get_header h' a \<noteq> None"
proof -
  from x obtain x0 where "lookup h a = Some (Header x0)" by (auto simp: get_header_lookup)
  with shape_cases [OF s, of a] obtain c' where "lookup h' a = Some c'" "erase_uuid c' = erase_uuid (Header x0)"
    by auto
  then show ?thesis using erase_Header [of c' "Header x0" x0] by (auto simp: get_header_def)
qed

lemma shape_route_headers:
  assumes s: "same_shape h h'"
  shows "map_option r_customHeaders (get_route h' a) = map_option r_customHeaders (get_route h a)"
proof (cases "get_route h a")
  case None
  have "get_route h' a = None"
  proof (rule ccontr)
    assume "get_route h' a \<noteq> None"
    then obtain r' where "get_route h' a = Some r'" by auto
    from shape_route [OF same_shape_sym [OF s] this] show False using None by simp
  qed
  then show ?thesis using None by simp
next
  case (Some r)
  from shape_route [OF s Some] obtain r' where r': "get_route h' a = Some r'" "r' = r\<lparr>r_uuid := r_uuid r'\<rparr>"
    by blast
  have "r_customHeaders r' = r_customHeaders r" by (subst r'(2)) simp
  then show ?thesis using Some r'(1) by simp
qed

lemma shape_env_routes:
  assumes s: "same_shape h h'"
  shows "map_option e_routes (get_env h' a) = map_option e_routes (get_env h a)"
proof (cases "get_env h a")
  case None
  have "get_env h' a = None"
  proof (rule ccontr)
    assume "get_env h' a \<noteq> None"
    then obtain e' where "get_env h' a = Some e'" by auto
    from shape_env [OF same_shape_sym [OF s] this] show False using None by simp
  qed
  then show ?thesis using None by simp
next
  case (Some e)
  from shape_env [OF s Some] obtain e' where e': "get_env h' a = Some e'" "e' = e\<lparr>e_uuid := e_uuid e'\<rparr>"
    by blast
  have "e_routes e' = e_routes e" by (subst e'(2)) simp
  then show ?thesis using Some e'(1) by simp
qed

lemma shape_route_objects: "same_shape h h' \<Longrightarrow> route_objects h' r = route_objects h r"
proof -
  assume s: "same_shape h h'"
  from shape_route_headers [OF s, of r] show ?thesis
    by (cases "get_route h r"; cases "get_route h' r") (simp_all add: route_objects_def shape_refs [OF s])
qed

lemma shape_env_objects: "same_shape h h' \<Longrightarrow> env_objects h' a = env_objects h a"
proof -
  assume s: "same_shape h h'"
  have "map (route_objects h') = map (route_objects h)" using shape_route_objects [OF s] by auto
  with shape_env_routes [OF s, of a] show ?thesis
    by (cases "get_env h a"; cases "get_env h' a")
       (simp_all add: env_objects_def shape_refs [OF s] split: option.splits)
qed

lemma shape_typed_route: "same_shape h h' \<Longrightarrow> typed_route h a \<Longrightarrow> typed_route h' a"
proof -
  assume s: "same_shape h h'" and "typed_route h a"
  then obtain r hs where r: "get_route h a = Some r" and hs: "get_refs h (r_customHeaders r) = Some hs"
    and xs: "\<forall>x\<in>set hs. get_header h x \<noteq> None"
    unfolding typed_route_def by blast
  from shape_route [OF s r] obtain r' where r': "get_route h' a = Some r'" and eq: "r' = r\<lparr>r_uuid := r_uuid r'\<rparr>"
    by blast
  have c: "r_customHeaders r' = r_customHeaders r" by (subst eq) simp
  have "get_refs h' (r_customHeaders r') = Some hs" using hs by (simp add: c shape_refs [OF s])
  moreover have "\<forall>x\<in>set hs. get_header h' x \<noteq> None" using xs shape_header [OF s] by blast
  ultimately show ?thesis unfolding typed_route_def using r' by blast
qed

lemma shape_typed_env: "same_shape h h' \<Longrightarrow> typed_env h a \<Longrightarrow> typed_env h' a"
proof -
  assume s: "same_shape h h'" and "typed_env h a"
  then obtain e rs where e: "get_env h a = Some e" and rs: "get_refs h (e_routes e) = Some rs"
    and ts: "\<forall>r\<in>set rs. typed_route h r"
    unfolding typed_env_def by blast
  from shape_env [OF s e] obtain e' where e': "get_env h' a = Some e'" and eq: "e' = e\<lparr>e_uuid := e_uuid e'\<rparr>"
    by blast
  have c: "e_routes e' = e_routes e" by (subst eq) simp
  have "get_refs h' (e_routes e') = Some rs" using rs by (simp add: c shape_refs [OF s])
  moreover have "\<forall>r\<in>set rs. typed_route h' r" using ts shape_typed_route [OF s] by blast
  ultimately show ?thesis unfolding typed_env_def using e' by blast
qed


lemma renewed_state_fields:
  "store (renewed_state s xs) = assign_uuids (uuidSource s) (uuidCalls s) xs (store s)"
  "uuidCalls (renewed_state s xs) = uuidCalls s + length xs"
  "uuidSource (renewed_state s xs) = uuidSource s"
  "environments (renewed_state s xs) = environments s"
  "alerts (renewed_state s xs) = alerts s"
  by (simp_all add: renewed_state_def)

lemma renewed_state_append: "renewed_state (renewed_state s xs) ys = renewed_state s (xs @ ys)"
  by (simp add: renewed_state_def assign_append add.assoc)

lemma renewed_state_one:
  assumes "lookup (store s) a = Some c"
  shows "s\<lparr>uuidCalls := Suc (uuidCalls s),
           store := (store s)[a := set_uuid (uuidSource s (uuidCalls s)) c]\<rparr> = renewed_state s [a]"
proof -
  from assms have "store s ! a = c" by (simp add: lookup_def split: if_splits)
  then show ?thesis by (simp add: renewed_state_def)
qed

lemma same_shape_renewed: "same_shape (store s) (store (renewed_state s xs))"
  by (simp add: renewed_state_fields same_shape_assign)

lemma renewHeaders_assign:
  assumes "\<forall>a\<in>set hs. get_header (store s) a \<noteq> None"
  shows "renewHeaders hs s = Some (renewed_state s hs)"
  using assms
proof (induction hs arbitrary: s)
  case Nil
  then show ?case by (simp add: renewed_state_def)
next
  case (Cons a hs)
  from Cons.prems obtain x where x: "get_header (store s) a = Some x" by auto
  define s1 where "s1 = s\<lparr>uuidCalls := Suc (uuidCalls s),
      store := (store s)[a := Header (x\<lparr>h_uuid := uuidSource s (uuidCalls s)\<rparr>)]\<rparr>"
  have l: "lookup (store s) a = Some (Header x)" using x by (simp add: get_header_lookup)
  have eq1: "s1 = renewed_state s [a]" using renewed_state_one [OF l] by (simp add: s1_def)
  have sh: "same_shape (store s) (store s1)" unfolding eq1 by (rule same_shape_renewed)
  have hs1: "\<forall>b\<in>set hs. get_header (store s1) b \<noteq> None"
    using Cons.prems shape_header [OF sh] by simp
  have "renewHeaders hs s1 = Some (renewed_state s1 hs)" using hs1 by (rule Cons.IH)
  then have run: "renewHeaders hs s1 = Some (renewed_state s (a # hs))"
    by (simp add: eq1 renewed_state_append)
  show ?case using x run by (simp add: uuid_def s1_def)
qed

lemma renewRoutes_assign:
  assumes "\<forall>r\<in>set rs. typed_route (store s) r"
  shows "renewRoutes rs s = Some (renewed_state s (concat (map (route_objects (store s)) rs)))"
  using assms
proof (induction rs arbitrary: s)
  case Nil
  then show ?case by (simp add: renewed_state_def)
next
  case (Cons a rs)
  from Cons.prems obtain r hs where r: "get_route (store s) a = Some r"
    and hs: "get_refs (store s) (r_customHeaders r) = Some hs"
    and xs: "\<forall>x\<in>set hs. get_header (store s) x \<noteq> None"
    unfolding typed_route_def by auto
  define s2 where "s2 = s\<lparr>uuidCalls := Suc (uuidCalls s),
      store := (store s)[a := Route (r\<lparr>r_uuid := uuidSource s (uuidCalls s)\<rparr>)]\<rparr>"
  have l: "lookup (store s) a = Some (Route r)" using r by (simp add: get_route_lookup)
  have eq2: "s2 = renewed_state s [a]" using renewed_state_one [OF l] by (simp add: s2_def)
  have sh2: "same_shape (store s) (store s2)" unfolding eq2 by (rule same_shape_renewed)
  have hs2: "get_refs (store s2) (r_customHeaders r) = Some hs" using hs by (simp add: shape_refs [OF sh2])
  have xs2: "\<forall>x\<in>set hs. get_header (store s2) x \<noteq> None" using xs shape_header [OF sh2] by simp
  have ro: "route_objects (store s) a = a # hs" by (simp add: route_objects_def r hs)
  define s3 where "s3 = renewed_state s (route_objects (store s) a)"
  have "renewHeaders hs s2 = Some (renewed_state s2 hs)" using xs2 by (rule renewHeaders_assign)
  then have run3: "renewHeaders hs s2 = Some s3"
    by (simp add: eq2 renewed_state_append s3_def ro)
  have sh3: "same_shape (store s) (store s3)" unfolding s3_def by (rule same_shape_renewed)
  have rs3: "\<forall>b\<in>set rs. typed_route (store s3) b"
    using Cons.prems shape_typed_route [OF sh3] by simp
  have m: "map (route_objects (store s3)) rs = map (route_objects (store s)) rs"
    using shape_route_objects [OF sh3] by simp
  have "renewRoutes rs s3 = Some (renewed_state s3 (concat (map (route_objects (store s3)) rs)))"
    using rs3 by (rule Cons.IH)
  then have run: "renewRoutes rs s3 = Some (renewed_state s (concat (map (route_objects (store s)) (a # rs))))"
    unfolding m by (simp add: s3_def renewed_state_append)
  show ?case using r hs2 run3 run by (simp add: uuid_def Let_def s2_def)
qed

lemma renewEnvironments_assign:
  assumes "\<forall>a\<in>set es. typed_env (store s) a"
  shows "renewEnvironments es s = Some (renewed_state s (payload_objects (store s) es))"
  using assms
proof (induction es arbitrary: s)
  case Nil
  then show ?case by (simp add: renewed_state_def payload_objects_def)
next
  case (Cons a es)
  from Cons.prems obtain e rs where e: "get_env (store s) a = Some e"
    and rs: "get_refs (store s) (e_routes e) = Some rs"
    and ts: "\<forall>r\<in>set rs. typed_route (store s) r"
    unfolding typed_env_def by auto
  define s2 where "s2 = s\<lparr>uuidCalls := Suc (uuidCalls s),
      store := (store s)[a := Env (e\<lparr>e_uuid := uuidSource s (uuidCalls s)\<rparr>)]\<rparr>"
  have l: "lookup (store s) a = Some (Env e)" using e by (simp add: get_env_lookup)
  have eq2: "s2 = renewed_state s [a]" using renewed_state_one [OF l] by (simp add: s2_def)
  have sh2: "same_shape (store s) (store s2)" unfolding eq2 by (rule same_shape_renewed)
  have rs2: "get_refs (store s2) (e_routes e) = Some rs" using rs by (simp add: shape_refs [OF sh2])
  have ts2: "\<forall>r\<in>set rs. typed_route (store s2) r" using ts shape_typed_route [OF sh2] by simp
  have m2: "map (route_objects (store s2)) rs = map (route_objects (store s)) rs"
    using shape_route_objects [OF sh2] by simp
  have eo: "env_objects (store s) a = a # concat (map (route_objects (store s)) rs)"
    by (simp add: env_objects_def e rs)
  define s3 where "s3 = renewed_state s (env_objects (store s) a)"
  have "renewRoutes rs s2 = Some (renewed_state s2 (concat (map (route_objects (store s2)) rs)))"
    using ts2 by (rule renewRoutes_assign)
  then have run3: "renewRoutes rs s2 = Some s3"
    unfolding m2 by (simp add: eq2 renewed_state_append s3_def eo)
  have sh3: "same_shape (store s) (store s3)" unfolding s3_def by (rule same_shape_renewed)
  have es3: "\<forall>b\<in>set es. typed_env (store s3) b"
    using Cons.prems shape_typed_env [OF sh3] by simp
  have m: "map (env_objects (store s3)) es = map (env_objects (store s)) es"
    using shape_env_objects [OF sh3] by simp
  have "renewEnvironments es s3 = Some (renewed_state s3 (payload_objects (store s3) es))"
    using es3 by (rule Cons.IH)
  then have run: "renewEnvironments es s3 = Some (renewed_state s (payload_objects (store s) (a # es)))"
    unfolding payload_objects_def m by (simp add: s3_def renewed_state_append)
  show ?case using e rs2 run3 run by (simp add: uuid_def Let_def s2_def)
qed

lemma route_objects_kinds:
  assumes "typed_route h r" and "a \<in> set (route_objects h r)"
  shows "get_route h a \<noteq> None \<or> get_header h a \<noteq> None"
proof -
  from assms(1) obtain rt hs where "get_route h r = Some rt" "get_refs h (r_customHeaders rt) = Some hs"
    "\<forall>x\<in>set hs. get_header h x \<noteq> None"
    unfolding typed_route_def by blast
  then show ?thesis using assms(2) by (auto simp: route_objects_def)
qed

lemma env_objects_kinds:
  assumes "typed_env h e" and "a \<in> set (env_objects h e)"
  shows "a = e \<or> get_route h a \<noteq> None \<or> get_header h a \<noteq> None"
proof -
  from assms(1) obtain en rs where en: "get_env h e = Some en" "get_refs h (e_routes en) = Some rs"
    and ts: "\<forall>r\<in>set rs. typed_route h r"
    unfolding typed_env_def by blast
  from assms(2) en consider "a = e" | r where "r \<in> set rs" "a \<in> set (route_objects h r)"
    by (auto simp: env_objects_def)
  then show ?thesis
  proof cases
    case 1
    then show ?thesis by simp
  next
    case 2
    then show ?thesis using ts route_objects_kinds by blast
  qed
qed

lemma payload_objects_kinds:
  assumes "\<forall>e\<in>set es. typed_env h e" and "a \<in> set (payload_objects h es)"
  shows "a \<in> set es \<or> get_route h a \<noteq> None \<or> get_header h a \<noteq> None"
proof -
  from assms(2) obtain e where e: "e \<in> set es" "a \<in> set (env_objects h e)"
    by (auto simp: payload_objects_def)
  with assms(1) have "typed_env h e" by blast
  from env_objects_kinds [OF this e(2)] show ?thesis using e(1) by auto
qed

lemma payload_objects_envs: "set es \<subseteq> set (payload_objects h es)"
  by (auto simp: payload_objects_def env_objects_def)

lemma distinct_payload: "distinct (payload_objects h es) \<Longrightarrow> distinct es"
proof (induction es)
  case Nil
  then show ?case by simp
next
  case (Cons a es)
  have p: "payload_objects h (a # es) = env_objects h a @ payload_objects h es"
    by (simp add: payload_objects_def)
  from Cons.prems have d: "distinct (payload_objects h es)"
    and i: "set (env_objects h a) \<inter> set (payload_objects h es) = {}"
    unfolding p by simp_all
  have "a \<in> set (env_objects h a)" by (simp add: env_objects_def)
  then have "a \<notin> set (payload_objects h es)" using i by blast
  then have "a \<notin> set es" using payload_objects_envs [of es h] by blast
  then show ?case using Cons.IH [OF d] by simp
qed

lemma owned_arrays_refs:
  assumes "typed_env h a" and "b \<in> set (owned_arrays h a)"
  shows "get_refs h b \<noteq> None"
proof -
  from assms(1) obtain e rs where e: "get_env h a = Some e" "get_refs h (e_routes e) = Some rs"
    and ts: "\<forall>r\<in>set rs. typed_route h r"
    unfolding typed_env_def by blast
  from assms(2) e have "b = e_routes e
      \<or> (\<exists>r\<in>set rs. b \<in> set (case get_route h r of None \<Rightarrow> [] | Some rt \<Rightarrow> [r_customHeaders rt]))"
    by (auto simp: owned_arrays_def)
  then show ?thesis
  proof
    assume "b = e_routes e"
    then show ?thesis using e by simp
  next
    assume "\<exists>r\<in>set rs. b \<in> set (case get_route h r of None \<Rightarrow> [] | Some rt \<Rightarrow> [r_customHeaders rt])"
    then obtain r where r: "r \<in> set rs"
      "b \<in> set (case get_route h r of None \<Rightarrow> [] | Some rt \<Rightarrow> [r_customHeaders rt])" by blast
    with ts have "typed_route h r" by blast
    then obtain rt hs where "get_route h r = Some rt" "get_refs h (r_customHeaders rt) = Some hs"
      unfolding typed_route_def by blast
    then show ?thesis using r(2) by simp
  qed
qed


lemma pipeline_keeps:
  assumes "\<forall>m\<in>set Ms. \<forall>a t t'. m a t = Some t' \<longrightarrow> get_refs (store t') d = get_refs (store t) d"
    and "migrationPipeline Ms es s = Some s1"
  shows "get_refs (store s1) d = get_refs (store s) d"
proof (rule applySteps_keeps)
  show "\<forall>m\<in>fst ` set (concat (map (\<lambda>m. map (Pair m) es) Ms)).
          \<forall>a t t'. m a t = Some t' \<longrightarrow> get_refs (store t') d = get_refs (store t) d"
    using assms(1) by auto
  show "applySteps (concat (map (\<lambda>m. map (Pair m) es) Ms)) s = Some s1"
    using assms(2) by (simp add: migrationPipeline_def)
qed

lemma assignData_same:
  assumes "get_export (store s) d = Some doc"
  shows "assignData d (x_data doc) s = Some s"
proof -
  have l: "lookup (store s) d = Some (Export doc)"
    using assms by (auto simp: get_export_def split: option.splits cell.splits)
  then have "d < length (store s)" "store s ! d = Export doc" by (auto simp: lookup_def split: if_splits)
  then have "(store s)[d := Export doc] = store s" by (metis list_update_id)
  then show ?thesis using assms by (simp add: assignData_def)
qed

text \<open>
  Claim C5. Let the checksum test accept the document, and let \<open>s1\<close> be the state that
  the migration pipeline gives: every migration, in order, applied to every environment
  of the payload, in order (a migration is given the environment, not the payload array,
  which it leaves as it is). In \<open>s1\<close> let the document be as it was, the payload an array
  of well-typed environments that own their arrays, and the live environments and the
  objects of the payload pairwise different objects (\<^verbatim>\<open>JSON.parse\<close> builds every object
  of the payload once). Then the import returns a state \<open>s'\<close> in which:

  \<^item> \<^verbatim>\<open>uuid()\<close> has been called once for each environment, route and header of the
    payload and not otherwise: the call count has grown by the number of these objects,
    and the \<open>i\<close>-th of them, in the order of the loops of \<^verbatim>\<open>renewUUIDs\<close>, has the uuid
    that the \<open>i\<close>-th of these calls returned, whatever its uuid was before;

  \<^item> apart from the uuid (and, for an environment, \<^verbatim>\<open>duplicates\<close>) each of these objects
    is exactly as the migrations left it, and the \<^verbatim>\<open>routes\<close> array of every imported
    environment and the \<^verbatim>\<open>customHeaders\<close> array of each of its routes hold what they
    held after the migrations;

  \<^item> no other object of the store has changed, the live environments and the collection
    array apart;

  \<^item> the collection is the live collection followed by the imported environments, and
    every live environment is unchanged but for \<^verbatim>\<open>duplicates\<close>;

  \<^item> the \<^verbatim>\<open>duplicates\<close> of every environment of the merged collection lists the other
    environments of the merged collection with the same port;

  \<^item> the success alert is the last alert.

  So the migrations act on the payload as parsed, the uuids are renewed on the migrated
  payload, the renewed environments are appended to the collection, and the duplicate
  pass runs on the merged collection.
\<close>

theorem import_steps_in_order:
  assumes path: "path \<noteq> []"
    and ok: "verifyImportChecksum (store s) importData"
    and doc: "get_export (store s) importData = Some doc"
    and payload: "get_refs (store s) (x_data doc) = Some imported"
    and own: "\<forall>m\<in>set Migrations. \<forall>a t t'. m a t = Some t'
                 \<longrightarrow> get_refs (store t') (x_data doc) = get_refs (store t) (x_data doc)"
    and mig: "migrationPipeline Migrations imported s = Some s1"
    and doc1: "get_export (store s1) importData = Some doc"
    and timp: "\<forall>a\<in>set imported. typed_env (store s1) a
                 \<and> environments s1 \<notin> set (owned_arrays (store s1) a)"
    and live: "get_refs (store s1) (environments s1) = Some live"
    and tlive: "\<forall>a\<in>set live. get_env (store s1) a \<noteq> None"
    and dist: "distinct (live @ payload_objects (store s1) imported)"
  shows "\<exists>s'. importEnvironmentsFile verifyImportChecksum Migrations (Some (path # paths))
                 (Document importData) s = Some s'
     \<and> uuidSource s' = uuidSource s1
     \<and> uuidCalls s' = uuidCalls s1 + length (payload_objects (store s1) imported)
     \<and> (\<forall>i<length (payload_objects (store s1) imported).
            renewed_object (store s1) (store s') (uuidSource s1 (uuidCalls s1 + i))
              (payload_objects (store s1) imported ! i))
     \<and> (\<forall>a\<in>set imported. \<forall>b\<in>set (owned_arrays (store s1) a).
            get_refs (store s') b = get_refs (store s1) b)
     \<and> others_kept (set live \<union> set (payload_objects (store s1) imported) \<union> {environments s1}) s1 s'
     \<and> environments s' = environments s1
     \<and> get_refs (store s') (environments s') = Some (live @ imported)
     \<and> (\<forall>a\<in>set live. \<exists>e1 e'. get_env (store s1) a = Some e1 \<and> get_env (store s') a = Some e'
            \<and> e' = e1\<lparr>e_duplicates := e_duplicates e'\<rparr>)
     \<and> (\<forall>i<length (live @ imported). environmentDuplicates (store s') ((live @ imported) ! i) =
            Some [j \<leftarrow> [0..<length (live @ imported)]. j \<noteq> i
                    \<and> env_port (store s') ((live @ imported) ! j) = env_port (store s') ((live @ imported) ! i)])
     \<and> alerts s' = alerts s1 @ [(''success'', IMPORT_SUCCESS)]"
proof -
  define E where "E = environments s1"
  define es where "es = live @ imported"
  define objs where "objs = payload_objects (store s1) imported"
  define k where "k = uuidCalls s1"
  define src where "src = uuidSource s1"
  have t1: "\<forall>a\<in>set imported. typed_env (store s1) a" using timp by blast
  have mig': "migrateData Migrations (x_data doc) s = Some s1"
    using migrateData_pipeline [OF own payload] mig by simp
  have imp: "get_refs (store s1) (x_data doc) = Some imported"
    using pipeline_keeps [OF own mig] payload by simp
  define s3 where "s3 = renewed_state s1 objs"
  have run3: "renewEnvironments imported s1 = Some s3"
    unfolding s3_def objs_def using t1 by (rule renewEnvironments_assign)
  have renew: "renewUUIDs (x_data doc) s1 = Some s3" using imp run3 by (simp add: renewUUIDs_def)
  have sh: "same_shape (store s1) (store s3)" unfolding s3_def by (rule same_shape_renewed)
  have f3: "environments s3 = E" "alerts s3 = alerts s1" "uuidSource s3 = src"
    "uuidCalls s3 = k + length objs" "store s3 = assign_uuids src k objs (store s1)"
    by (simp_all add: s3_def renewed_state_fields E_def src_def k_def)
  have len3: "length (store s3) = length (store s1)" by (simp add: f3 length_assign)
  have doc3: "get_export (store s3) importData = Some doc" using doc1 by (simp add: shape_export [OF sh])
  have imp3: "get_refs (store s3) (x_data doc) = Some imported" using imp by (simp add: shape_refs [OF sh])
  have live3: "get_refs (store s3) E = Some live" using live by (simp add: shape_refs [OF sh] E_def)
  have dobjs: "distinct objs" and dlive: "distinct live" and disj: "set live \<inter> set objs = {}"
    using dist by (simp_all add: objs_def)
  have sub: "set imported \<subseteq> set objs" unfolding objs_def by (rule payload_objects_envs)
  have dist': "distinct es"
    using dlive disj sub distinct_payload [of "store s1" imported] dobjs by (auto simp: es_def objs_def)
  have out3: "\<And>b. b \<notin> set objs \<Longrightarrow> lookup (store s3) b = lookup (store s1) b"
    by (simp add: lookup_def f3 length_assign assign_other)
  have in3: "\<And>i c. i < length objs \<Longrightarrow> lookup (store s1) (objs ! i) = Some c
      \<Longrightarrow> lookup (store s3) (objs ! i) = Some (set_uuid (src (k + i)) c)"
  proof -
    fix i c assume i: "i < length objs" and c: "lookup (store s1) (objs ! i) = Some c"
    then have lt: "objs ! i < length (store s1)" and v: "store s1 ! (objs ! i) = c"
      by (auto simp: lookup_def split: if_splits)
    show "lookup (store s3) (objs ! i) = Some (set_uuid (src (k + i)) c)"
      using assign_nth [OF dobjs i lt, of src k] lt v by (simp add: lookup_def f3 length_assign)
  qed
  have env1: "\<And>a. a \<in> set es \<Longrightarrow> \<exists>e1. get_env (store s1) a = Some e1"
    using tlive t1 unfolding typed_env_def es_def by auto
  have env3: "\<And>a. a \<in> set es \<Longrightarrow> \<exists>e. get_env (store s3) a = Some e"
  proof -
    fix a assume "a \<in> set es"
    from env1 [OF this] obtain e1 where "get_env (store s1) a = Some e1" by blast
    from shape_env [OF sh this] show "\<exists>e. get_env (store s3) a = Some e" by blast
  qed
  define s5 where "s5 = s3\<lparr>store := (store s3)[E := Refs es]\<rparr>"
  have E_lt: "E < length (store s3)" using live3 by (rule get_refs_lt)
  have es5: "get_refs (store s5) (environments s5) = Some es"
    using E_lt by (simp add: s5_def f3(1) get_refs_def lookup_update)
  have notE: "\<And>a e. get_env (store s3) a = Some e \<Longrightarrow> a \<noteq> E"
    using live3 by (auto simp: get_env_lookup get_refs_lookup)
  have envs5: "\<forall>a\<in>set es. get_env (store s5) a \<noteq> None"
  proof
    fix a assume "a \<in> set es"
    then obtain e where e: "get_env (store s3) a = Some e" using env3 by blast
    then show "get_env (store s5) a \<noteq> None"
      using notE [OF e] by (simp add: s5_def get_env_def lookup_update)
  qed
  from checkEnvironmentsDuplicates_spec [OF es5 dist' envs5] obtain h' where
    check: "checkEnvironmentsDuplicates s5 = Some (s5\<lparr>store := h'\<rparr>)"
    and frame: "\<forall>b<length (store s5). b \<notin> set es \<longrightarrow> lookup h' b = lookup (store s5) b"
    and arr: "get_refs h' (environments s5) = Some es"
    and ports: "\<forall>a\<in>set es. env_port h' a = env_port (store s5) a"
    and cells: "\<forall>k<length es. \<exists>e d. get_env (store s5) (es ! k) = Some e
            \<and> get_env h' (es ! k) = Some (e\<lparr>e_duplicates := d\<rparr>)"
    and dups: "\<forall>k<length es. environmentDuplicates h' (es ! k) =
            Some [j \<leftarrow> [0..<length es]. j \<noteq> k \<and> env_port (store s5) (es ! j) = env_port (store s5) (es ! k)]"
    by (elim exE conjE) (rule that)
  define s' where "s' = showAlert ''success'' IMPORT_SUCCESS (s5\<lparr>store := h'\<rparr>)"
  have st': "store s' = h'" "environments s' = E" "uuidCalls s' = k + length objs"
    "uuidSource s' = src" "alerts s' = alerts s1 @ [(''success'', IMPORT_SUCCESS)]"
    by (simp_all add: s'_def showAlert_def s5_def f3)
  have run: "importEnvironmentsFile verifyImportChecksum Migrations (Some (path # paths))
                 (Document importData) s = Some s'"
    using path ok doc mig' assignData_same [OF doc1] doc1 renew assignData_same [OF doc3] doc3 imp3
      live3 check
    by (simp add: importEnvironmentsFile_def importDocument_def f3(1) es_def s5_def s'_def Let_def)
  have same: "\<And>b c. lookup (store s3) b = Some c \<Longrightarrow> b \<noteq> E \<Longrightarrow> \<forall>e. c \<noteq> Env e \<Longrightarrow> lookup (store s') b = Some c"
  proof -
    fix b c assume l: "lookup (store s3) b = Some c" and bE: "b \<noteq> E" and ne: "\<forall>e. c \<noteq> Env e"
    have "b \<notin> set es"
    proof
      assume "b \<in> set es"
      then obtain e where "get_env (store s3) b = Some e" using env3 by blast
      then show False using l ne by (simp add: get_env_lookup)
    qed
    moreover have "b < length (store s5)" using l by (auto simp: s5_def dest: lookup_Some_lt)
    ultimately have "lookup h' b = lookup (store s5) b" using frame by blast
    then show "lookup (store s') b = Some c" using l bE by (simp add: st' s5_def lookup_update)
  qed
  have env': "\<And>a e. a \<in> set es \<Longrightarrow> get_env (store s3) a = Some e
        \<Longrightarrow> \<exists>d. get_env (store s') a = Some (e\<lparr>e_duplicates := d\<rparr>)"
  proof -
    fix a e assume a: "a \<in> set es" and e3: "get_env (store s3) a = Some e"
    from a obtain j where j: "j < length es" "a = es ! j" by (auto simp: in_set_conv_nth)
    from cells j obtain e5 d where e5: "get_env (store s5) a = Some e5"
      and e': "get_env h' a = Some (e5\<lparr>e_duplicates := d\<rparr>)" by blast
    have "get_env (store s5) a = Some e"
      using e3 notE [OF e3] by (simp add: s5_def get_env_def lookup_update)
    then have "e5 = e" using e5 by simp
    then show "\<exists>d. get_env (store s') a = Some (e\<lparr>e_duplicates := d\<rparr>)"
      using e' st' by auto
  qed
  have c_objs: "\<forall>i<length objs. renewed_object (store s1) (store s') (src (k + i)) (objs ! i)"
  proof (intro allI impI)
    fix i assume i: "i < length objs"
    define a where "a = objs ! i"
    define u where "u = src (k + i)"
    have "a \<in> set objs" using i by (simp add: a_def)
    then have "a \<in> set imported \<or> get_route (store s1) a \<noteq> None \<or> get_header (store s1) a \<noteq> None"
      unfolding objs_def using t1 by (intro payload_objects_kinds) auto
    then consider (env) "a \<in> set imported"
      | (route) r1 where "get_route (store s1) a = Some r1"
      | (header) x1 where "get_header (store s1) a = Some x1"
      by auto
    then show "renewed_object (store s1) (store s') (src (k + i)) (objs ! i)"
      unfolding a_def [symmetric] u_def [symmetric]
    proof cases
      case env
      then have a_es: "a \<in> set es" by (simp add: es_def)
      from env1 [OF this] obtain e1 where e1: "get_env (store s1) a = Some e1" by blast
      then have l1: "lookup (store s1) a = Some (Env e1)" by (simp add: get_env_lookup)
      from in3 [OF i, of "Env e1"] l1 have "lookup (store s3) a = Some (Env (e1\<lparr>e_uuid := u\<rparr>))"
        by (simp add: a_def u_def)
      then have "get_env (store s3) a = Some (e1\<lparr>e_uuid := u\<rparr>)" by (simp add: get_env_lookup)
      from env' [OF a_es this] obtain d where
        "get_env (store s') a = Some (e1\<lparr>e_uuid := u, e_duplicates := d\<rparr>)" by auto
      then have "lookup (store s') a = Some (Env (e1\<lparr>e_uuid := u, e_duplicates := d\<rparr>))"
        by (simp add: get_env_lookup)
      then show "renewed_object (store s1) (store s') u a"
        using l1 by (simp add: renewed_object_def)
    next
      case route
      then have l1: "lookup (store s1) a = Some (Route r1)" by (simp add: get_route_lookup)
      from in3 [OF i, of "Route r1"] l1 have l3: "lookup (store s3) a = Some (Route (r1\<lparr>r_uuid := u\<rparr>))"
        by (simp add: a_def u_def)
      have "a \<noteq> E" using l3 live3 by (auto simp: get_refs_lookup)
      with l3 have "lookup (store s') a = Some (Route (r1\<lparr>r_uuid := u\<rparr>))" by (rule same) simp
      then show "renewed_object (store s1) (store s') u a"
        using l1 by (simp add: renewed_object_def)
    next
      case header
      then have l1: "lookup (store s1) a = Some (Header x1)" by (simp add: get_header_lookup)
      from in3 [OF i, of "Header x1"] l1 have l3: "lookup (store s3) a = Some (Header (x1\<lparr>h_uuid := u\<rparr>))"
        by (simp add: a_def u_def)
      have "a \<noteq> E" using l3 live3 by (auto simp: get_refs_lookup)
      with l3 have "lookup (store s') a = Some (Header (x1\<lparr>h_uuid := u\<rparr>))" by (rule same) simp
      then show "renewed_object (store s1) (store s') u a"
        using l1 by (simp add: renewed_object_def)
    qed
  qed
  have c_frame: "others_kept (set live \<union> set objs \<union> {E}) s1 s'"
    unfolding others_kept_def
  proof (intro allI impI)
    fix b assume b: "b < length (store s1)" and n: "b \<notin> set live \<union> set objs \<union> {E}"
    have "b \<notin> set es" using n sub by (auto simp: es_def)
    moreover have "b < length (store s5)" using b by (simp add: s5_def len3)
    ultimately have "lookup h' b = lookup (store s5) b" using frame by blast
    also have "\<dots> = lookup (store s3) b" using n by (simp add: s5_def lookup_update)
    also have "\<dots> = lookup (store s1) b" using n by (intro out3) simp
    finally show "lookup (store s') b = lookup (store s1) b" by (simp add: st')
  qed
  have c_arr: "\<forall>a\<in>set imported. \<forall>b\<in>set (owned_arrays (store s1) a).
            get_refs (store s') b = get_refs (store s1) b"
  proof (intro ballI)
    fix a b assume a: "a \<in> set imported" and b: "b \<in> set (owned_arrays (store s1) a)"
    from a t1 have "typed_env (store s1) a" by blast
    from owned_arrays_refs [OF this b] obtain xs where xs: "get_refs (store s1) b = Some xs" by auto
    then have l: "lookup (store s1) b = Some (Refs xs)" by (simp add: get_refs_lookup)
    have bE: "b \<noteq> E" using timp a b by (auto simp: E_def)
    have bl: "b \<notin> set live" using tlive l by (auto simp: get_env_lookup)
    have bo: "b \<notin> set objs"
    proof
      assume "b \<in> set objs"
      then have "b \<in> set imported \<or> get_route (store s1) b \<noteq> None \<or> get_header (store s1) b \<noteq> None"
        unfolding objs_def using t1 by (intro payload_objects_kinds) auto
      then show False using l env1 [of b]
        by (auto simp: es_def get_env_lookup get_route_lookup get_header_lookup)
    qed
    have "b < length (store s1)" using l by (rule lookup_Some_lt)
    then have "lookup (store s') b = lookup (store s1) b"
      using c_frame bE bl bo unfolding others_kept_def by blast
    then show "get_refs (store s') b = get_refs (store s1) b" by (simp add: get_refs_def)
  qed
  have c6: "get_refs (store s') (environments s') = Some es"
    using arr by (simp add: st' s5_def f3(1))
  have c7: "\<forall>a\<in>set live. \<exists>e1 e'. get_env (store s1) a = Some e1 \<and> get_env (store s') a = Some e'
            \<and> e' = e1\<lparr>e_duplicates := e_duplicates e'\<rparr>"
  proof
    fix a assume a: "a \<in> set live"
    then have a_es: "a \<in> set es" by (simp add: es_def)
    from env1 [OF a_es] obtain e1 where e1: "get_env (store s1) a = Some e1" by blast
    have "a \<notin> set objs" using a disj by blast
    from out3 [OF this] e1 have "get_env (store s3) a = Some e1" by (simp add: get_env_def)
    from env' [OF a_es this] obtain d where "get_env (store s') a = Some (e1\<lparr>e_duplicates := d\<rparr>)"
      by blast
    then show "\<exists>e1 e'. get_env (store s1) a = Some e1 \<and> get_env (store s') a = Some e'
            \<and> e' = e1\<lparr>e_duplicates := e_duplicates e'\<rparr>"
      using e1 by auto
  qed
  have c8: "\<forall>i<length es. environmentDuplicates (store s') (es ! i) =
            Some [j \<leftarrow> [0..<length es]. j \<noteq> i \<and> env_port (store s') (es ! j) = env_port (store s') (es ! i)]"
  proof (intro allI impI)
    fix i assume i: "i < length es"
    have "[j \<leftarrow> [0..<length es]. j \<noteq> i \<and> env_port (store s5) (es ! j) = env_port (store s5) (es ! i)]
        = [j \<leftarrow> [0..<length es]. j \<noteq> i \<and> env_port h' (es ! j) = env_port h' (es ! i)]"
      using ports i by (intro filter_cong) auto
    then show "environmentDuplicates (store s') (es ! i) =
            Some [j \<leftarrow> [0..<length es]. j \<noteq> i \<and> env_port (store s') (es ! j) = env_port (store s') (es ! i)]"
      using dups i by (simp add: st')
  qed
  show ?thesis
    apply (rule exI [of _ s'])
    apply (intro conjI)
    using run st' c_objs c_arr c_frame c6 c7 c8
    by (simp_all add: es_def E_def objs_def k_def src_def)
qed


lemma exMigrations_own:
  "\<forall>m\<in>set [exMigration, prefixMigration]. \<forall>a t t'. m a t = Some t'
      \<longrightarrow> get_refs (store t') d = get_refs (store t) d"
  by (auto simp: exMigration_def prefixMigration_def get_refs_def get_env_def lookup_update
           split: option.splits cell.splits)

lemma bundle_objects:
  "payload_objects (store bundleMigrated) [34, 37] = [34, 28, 24, 25, 31, 37]"
  by (simp add: payload_objects_def env_objects_def route_objects_def bundleMigrated_def bundleService_def
        exService_def exStore_def exEnv_def exRoute_def get_env_def get_route_def get_refs_def lookup_def)

lemma bundle_pipeline:
  "migrationPipeline [exMigration, prefixMigration] [34, 37] bundleService = Some bundleMigrated"
  by (simp add: migrationPipeline_def exMigration_def prefixMigration_def bundleMigrated_def
        bundleService_def exService_def exStore_def exEnv_def get_env_def lookup_def)

lemma bundleService_hyps:
  "''envs.json'' \<noteq> []"
  "exVerify (store bundleService) 39"
  "get_export (store bundleService) 39 = Some \<lparr>x_data = 38, x_checksum = ''c0ffee''\<rparr>"
  "get_refs (store bundleService) (x_data \<lparr>x_data = 38, x_checksum = ''c0ffee''\<rparr>) = Some [34, 37]"
  "\<forall>m\<in>set [exMigration, prefixMigration]. \<forall>a t t'. m a t = Some t'
      \<longrightarrow> get_refs (store t') (x_data \<lparr>x_data = 38, x_checksum = ''c0ffee''\<rparr>)
          = get_refs (store t) (x_data \<lparr>x_data = 38, x_checksum = ''c0ffee''\<rparr>)"
  "migrationPipeline [exMigration, prefixMigration] [34, 37] bundleService = Some bundleMigrated"
  "get_export (store bundleMigrated) 39 = Some \<lparr>x_data = 38, x_checksum = ''c0ffee''\<rparr>"
  "\<forall>a\<in>set [34, 37]. typed_env (store bundleMigrated) a
      \<and> environments bundleMigrated \<notin> set (owned_arrays (store bundleMigrated) a)"
  "get_refs (store bundleMigrated) (environments bundleMigrated) = Some [12, 15]"
  "\<forall>a\<in>set [12, 15]. get_env (store bundleMigrated) a \<noteq> None"
  "distinct ([12, 15] @ payload_objects (store bundleMigrated) [34, 37])"
proof -
  show "\<forall>m\<in>set [exMigration, prefixMigration]. \<forall>a t t'. m a t = Some t'
      \<longrightarrow> get_refs (store t') (x_data \<lparr>x_data = 38, x_checksum = ''c0ffee''\<rparr>)
          = get_refs (store t) (x_data \<lparr>x_data = 38, x_checksum = ''c0ffee''\<rparr>)"
    by (rule exMigrations_own)
  show "migrationPipeline [exMigration, prefixMigration] [34, 37] bundleService = Some bundleMigrated"
    by (rule bundle_pipeline)
  show "distinct ([12, 15] @ payload_objects (store bundleMigrated) [34, 37])"
    unfolding bundle_objects by simp
qed (simp_all add: bundleMigrated_def bundleService_def exService_def exStore_def exVerify_def
        exEnv_def exRoute_def exHeader_def typed_env_def typed_route_def owned_arrays_def
        get_env_def get_route_def get_header_def get_refs_def get_export_def lookup_def)

theorem import_steps_in_order_witness:
  "\<exists>s'. importEnvironmentsFile exVerify [exMigration, prefixMigration] (Some [''envs.json''])
            (Document 39) bundleService = Some s'
     \<and> uuidSource s' = uuidSource bundleMigrated
     \<and> uuidCalls s' = uuidCalls bundleMigrated + length [34, 28, 24, 25, 31, 37 :: nat]
     \<and> (\<forall>i<length [34, 28, 24, 25, 31, 37 :: nat].
            renewed_object (store bundleMigrated) (store s')
              (uuidSource bundleMigrated (uuidCalls bundleMigrated + i)) ([34, 28, 24, 25, 31, 37] ! i))
     \<and> (\<forall>a\<in>set [34, 37]. \<forall>b\<in>set (owned_arrays (store bundleMigrated) a).
            get_refs (store s') b = get_refs (store bundleMigrated) b)
     \<and> others_kept (set [12, 15] \<union> set [34, 28, 24, 25, 31, 37] \<union> {environments bundleMigrated})
          bundleMigrated s'
     \<and> environments s' = environments bundleMigrated
     \<and> get_refs (store s') (environments s') = Some ([12, 15] @ [34, 37])
     \<and> (\<forall>a\<in>set [12, 15]. \<exists>e1 e'. get_env (store bundleMigrated) a = Some e1 \<and> get_env (store s') a = Some e'
            \<and> e' = e1\<lparr>e_duplicates := e_duplicates e'\<rparr>)
     \<and> (\<forall>i<length ([12, 15] @ [34, 37 :: nat]). environmentDuplicates (store s') (([12, 15] @ [34, 37]) ! i) =
            Some [j \<leftarrow> [0..<length ([12, 15] @ [34, 37 :: nat])]. j \<noteq> i
                    \<and> env_port (store s') (([12, 15] @ [34, 37]) ! j) = env_port (store s') (([12, 15] @ [34, 37]) ! i)])
     \<and> alerts s' = alerts bundleMigrated @ [(''success'', IMPORT_SUCCESS)]"
  by (rule import_steps_in_order [where verifyImportChecksum = exVerify and s = bundleService
        and importData = 39 and paths = "[]", OF bundleService_hyps, unfolded bundle_objects])

text \<open>
  The same import, evaluated: six calls of \<^verbatim>\<open>uuid()\<close>, whose results \<^verbatim>\<open>u\<close>, \<^verbatim>\<open>uu\<close>,
  ... go to the first environment, its first route, the two headers of that route, the
  second route and the second environment; the arrays are as in the document; both
  migrations have run on both environments; the collection has four environments, the
  three on port 3000 listing each other.
\<close>

lemma bundle_import_evaluated:
  "map_option (\<lambda>s'. (uuidCalls s',
                      map (\<lambda>a. Option.bind (lookup (store s') a) cell_uuid) [34, 28, 24, 25, 31, 37],
                      get_refs (store s') 16, get_refs (store s') 32, get_refs (store s') 26,
                      map (environmentDuplicates (store s')) [12, 15, 34, 37],
                      map (\<lambda>a. map_option (\<lambda>e. (e_proxyHost e, e_endpointPrefix e)) (get_env (store s') a)) [34, 37]))
     (importEnvironmentsFile exVerify [exMigration, prefixMigration] (Some [''envs.json''])
        (Document 39) bundleService)
   = Some (6, [Some ''u'', Some ''uu'', Some ''uuu'', Some ''uuuu'', Some ''uuuuu'', Some ''uuuuuu''],
           Some [12, 15, 34, 37], Some [28, 31], Some [24, 25],
           [Some [1, 2], Some [0, 2], Some [0, 1], Some []],
           [Some (''localhost'', ''api''), Some (''localhost'', ''api'')])"
  by code_simp

end
